theory Spec2Isabelle
  imports Main "HOL-Library.Word" "HOL-Library.Sublist"
begin

unbundle bit_operations_syntax

section \<open>Device addresses (local\_device.cc)\<close>

text \<open>
  \<^verbatim>\<open>iree_host_size_t\<close> is a 64-bit unsigned integer. \<^verbatim>\<open>fmt\<close> prints it in decimal
  without padding, sign or separators.
\<close>

type_synonym host_size = "64 word"

definition digit_char :: "nat \<Rightarrow> char" where
  "digit_char d = ''0123456789'' ! d"

fun dec_string :: "nat \<Rightarrow> string" where
  "dec_string n = (if n < 10 then [digit_char n]
                   else dec_string (n div 10) @ [digit_char (n mod 10)])"

declare dec_string.simps [simp del]

definition fmt_size :: "host_size \<Rightarrow> string" where
  "fmt_size n = dec_string (unat n)"

text \<open>
  \<^verbatim>\<open>fmt::format(fmt_str, args...)\<close> restricted to the replacement field \<^verbatim>\<open>{}\<close>, the only
  one the source uses: each \<^verbatim>\<open>{}\<close> is replaced by the next argument, every other
  character is copied. A field without an argument raises \<^verbatim>\<open>fmt::format_error\<close>
  (\<open>None\<close>). The arguments are passed already formatted.
\<close>

fun fmt_format :: "string \<Rightarrow> string list \<Rightarrow> string option" where
  "fmt_format [] args = Some []"
| "fmt_format [c] args = Some [c]"
| "fmt_format (c # d # cs) args =
     (if c = CHR ''{'' \<and> d = CHR ''}'' then
        (case args of
           [] \<Rightarrow> None
         | a # rest \<Rightarrow> map_option (\<lambda>s. a @ s) (fmt_format cs rest))
      else map_option (\<lambda>s. c # s) (fmt_format (d # cs) args))"

text \<open>\<^verbatim>\<open>fmt::join(range, sep)\<close>: the formatted elements with \<open>sep\<close> between neighbours.\<close>

fun fmt_join :: "string list \<Rightarrow> string \<Rightarrow> string" where
  "fmt_join [] sep = []"
| "fmt_join [x] sep = x"
| "fmt_join (x # y # ys) sep = x @ sep @ fmt_join (y # ys) sep"

record LocalDeviceAddress =
  system_device_class :: string
  logical_device_class :: string
  hal_driver_prefix :: string
  instance_ordinal :: host_size
  queue_ordinal :: host_size
  instance_topology_address :: "host_size list"
  device_name :: string

text \<open>
  The format string of the device name: three fields separated by colons, an at sign,
  a fourth field.
\<close>

definition device_name_format :: string where
  "device_name_format = ''{}:{}:{}'' @ CHR ''@'' # ''{}''"

text \<open>
  The constructor \<^verbatim>\<open>LocalDeviceAddress::LocalDeviceAddress\<close>: the six arguments are stored
  and \<open>device_name\<close> is computed from the stored members. \<open>None\<close> stands for the
  exception \<^verbatim>\<open>fmt::format\<close> could raise.
\<close>

definition LocalDeviceAddress_new ::
  "string \<Rightarrow> string \<Rightarrow> string \<Rightarrow> host_size \<Rightarrow> host_size \<Rightarrow> host_size list
     \<Rightarrow> LocalDeviceAddress option" where
  "LocalDeviceAddress_new sdc ldc hdp inst queue topo =
     map_option
       (\<lambda>name. \<lparr> system_device_class = sdc, logical_device_class = ldc,
                 hal_driver_prefix = hdp, instance_ordinal = inst,
                 queue_ordinal = queue, instance_topology_address = topo,
                 device_name = name \<rparr>)
       (fmt_format device_name_format
          [sdc, fmt_size inst, fmt_size queue, fmt_join (map fmt_size topo) '',''])"

section \<open>Statuses, exceptions and observable effects\<close>

text \<open>
  \<^verbatim>\<open>iree_status_t\<close>: the source tells apart OK, DEADLINE\_EXCEEDED and everything else
  (\<open>IREE_FAILURE c\<close> for any other status code \<open>c\<close>).
\<close>

datatype iree_status = IREE_OK | IREE_DEADLINE_EXCEEDED | IREE_FAILURE nat

definition iree_status_is_ok :: "iree_status \<Rightarrow> bool" where
  "iree_status_is_ok st = (st = IREE_OK)"

definition iree_status_is_deadline_exceeded :: "iree_status \<Rightarrow> bool" where
  "iree_status_is_deadline_exceeded st = (st = IREE_DEADLINE_EXCEEDED)"

text \<open>
  The exceptions of the runtime: \<^verbatim>\<open>std::logic_error\<close> and \<^verbatim>\<open>std::invalid_argument\<close> with
  their messages, and the exception that carries a failed IREE status.
\<close>

datatype exn = LogicError string | InvalidArgument string | StatusError iree_status

text \<open>How a call of a \<^verbatim>\<open>void\<close> member function ends.\<close>

datatype outcome = Returns | Throws exn | Aborts iree_status

text \<open>
  Modelled from the spec: the macro \<^verbatim>\<open>SHORTFIN_THROW_IF_ERROR\<close>, whose header
  \<^verbatim>\<open>shortfin/support/iree_helpers.h\<close> is missing. A status that is not OK is raised as
  an exception, OK falls through.
\<close>

definition SHORTFIN_THROW_IF_ERROR :: "iree_status \<Rightarrow> exn option" where
  "SHORTFIN_THROW_IF_ERROR st = (if iree_status_is_ok st then None else Some (StatusError st))"

text \<open>
  What a call does to the world outside the Worker object, in the order it happens:
  a thunk is invoked, a thread is created (with its name and \<^verbatim>\<open>create_suspended\<close>) or
  resumed, the calling thread waits on the "ended" event with a timeout in
  milliseconds, a line is logged (format string and arguments).
\<close>

datatype 't effect =
    Thunk_call 't
  | Thread_create string bool
  | Thread_resume
  | Wait_ended nat
  | Log_warn string "string list"
  | Log_info string "string list"

section \<open>The Worker of \<^verbatim>\<open>shortfin::local\<close> (worker.cc)\<close>

text \<open>
  The members the source reads and writes, named as in the source without the
  trailing underscore. \<open>thread\<close> is whether the handle is set,
  the two events are whether they are signalled, and \<open>transact_wait\<close> is the part of
  \<open>loop_\<close> the Worker relies on: whether a \<^verbatim>\<open>wait_one\<close> on \<open>signal_transact\<close> with
  \<^verbatim>\<open>TransactLoop\<close> as its callback is registered with the loop. Thunks are opaque
  values of type \<open>'t\<close>.
\<close>

record 't Worker =
  options_name :: string
  options_owned_thread :: bool
  thread :: bool
  kill :: bool
  has_run :: bool
  signal_transact :: bool
  signal_ended :: bool
  pending_thunks :: "'t list"
  next_thunks :: "'t list"
  transact_wait :: bool

text \<open>
  Modelled from the spec: the initial values of \<open>kill\<close>, \<open>has_run\<close> and \<open>thread\<close>, whose
  declarations (\<^verbatim>\<open>shortfin/local/worker.h\<close>) are missing; a new Worker is neither killed
  nor run nor started. The rest is the constructor of the source: the two events
  start unsignalled, the vectors are empty, and nothing is registered with the new
  loop.
\<close>

definition Worker_new :: "string \<Rightarrow> bool \<Rightarrow> 't Worker" where
  "Worker_new nm owned =
     \<lparr> options_name = nm, options_owned_thread = owned, thread = False,
       kill = False, has_run = False, signal_transact = False,
       signal_ended = False, pending_thunks = [], next_thunks = [],
       transact_wait = False \<rparr>"

text \<open>
  \<^verbatim>\<open>ScheduleExternalTransactEvent\<close>: registers the wait with the loop and returns the
  status of \<^verbatim>\<open>iree_loop_wait_one\<close>, which is given as \<open>st\<close>.
\<close>

definition ScheduleExternalTransactEvent ::
  "iree_status \<Rightarrow> 't Worker \<Rightarrow> iree_status \<times> 't Worker" where
  "ScheduleExternalTransactEvent st w =
     (st, if iree_status_is_ok st then w\<lparr>transact_wait := True\<rparr> else w)"

text \<open>
  The critical section of \<^verbatim>\<open>TransactLoop\<close>: the event is reset, and unless \<open>kill\<close> is
  set the two vectors are swapped. The first component says whether the function
  returns from inside the section.
\<close>

definition TransactLoop_locked :: "'t Worker \<Rightarrow> bool \<times> 't Worker" where
  "TransactLoop_locked w =
     (let w1 = w\<lparr>signal_transact := False\<rparr> in
      if kill w1 then (True, w1)
      else (False, w1\<lparr>next_thunks := pending_thunks w1,
                       pending_thunks := next_thunks w1\<rparr>))"

text \<open>
  \<^verbatim>\<open>TransactLoop(signal_status)\<close> as one call: the status it returns, the thunks it
  invokes in order, and the Worker it leaves. \<open>rearm\<close> is the status
  \<^verbatim>\<open>iree_loop_wait_one\<close> returns when the wait is registered again.
\<close>

definition TransactLoop ::
  "iree_status \<Rightarrow> iree_status \<Rightarrow> 't Worker \<Rightarrow> iree_status \<times> 't effect list \<times> 't Worker" where
  "TransactLoop signal_status rearm w =
     (if \<not> iree_status_is_ok signal_status then (signal_status, [], w)
      else case TransactLoop_locked w of
        (True, w1) \<Rightarrow> (IREE_OK, [], w1)
      | (False, w2) \<Rightarrow>
          (let calls = map Thunk_call (next_thunks w2);
               w3 = w2\<lparr>next_thunks := []\<rparr>;
               (st, w4) = ScheduleExternalTransactEvent rearm w3
           in (st, calls, w4)))"

text \<open>
  \<^verbatim>\<open>Start\<close>. \<open>created\<close> is the status \<^verbatim>\<open>iree_thread_create\<close> returns; the thread is
  asked for with \<^verbatim>\<open>create_suspended = true\<close>.
\<close>

definition Start :: "iree_status \<Rightarrow> 't Worker \<Rightarrow> outcome \<times> 't effect list \<times> 't Worker" where
  "Start created w =
     (if \<not> options_owned_thread w then
        (Throws (LogicError ''Cannot start worker when owned_thread=false''), [], w)
      else if thread w then
        (Throws (LogicError ''Cannot start Worker multiple times''), [], w)
      else case SHORTFIN_THROW_IF_ERROR created of
        Some e \<Rightarrow> (Throws e, [Thread_create (options_name w) True], w)
      | None \<Rightarrow> (Returns, [Thread_create (options_name w) True, Thread_resume],
                  w\<lparr>thread := True\<rparr>))"

text \<open>\<^verbatim>\<open>Kill\<close>: the flag is set under the mutex, then the transact event is set.\<close>

definition Kill :: "'t Worker \<Rightarrow> outcome \<times> 't Worker" where
  "Kill w =
     (if options_owned_thread w \<and> \<not> thread w then
        (Throws (LogicError ''Cannot kill a Worker that was not started''), w)
      else (Returns, (w\<lparr>kill := True\<rparr>)\<lparr>signal_transact := True\<rparr>))"

text \<open>\<^verbatim>\<open>CallThreadsafe\<close>: the callback is pushed under the mutex, then the event is set.\<close>

definition CallThreadsafe :: "'t \<Rightarrow> 't Worker \<Rightarrow> 't Worker" where
  "CallThreadsafe callback w =
     (w\<lparr>pending_thunks := pending_thunks w @ [callback]\<rparr>)\<lparr>signal_transact := True\<rparr>"

text \<open>
  The polling loop of \<^verbatim>\<open>WaitForShutdown\<close>. Each element of the list is the status one
  call of \<^verbatim>\<open>iree_wait_source_wait_one\<close> on the "ended" event returns; the wait is made
  with \<^verbatim>\<open>iree_make_timeout_ms(5000)\<close>. The loop has no bound: \<open>None\<close> means that it is
  still waiting after the given statuses.
\<close>

fun WaitForShutdown_loop :: "string \<Rightarrow> iree_status list \<Rightarrow> (outcome \<times> 't effect list) option" where
  "WaitForShutdown_loop nm [] = None"
| "WaitForShutdown_loop nm (status # later) =
     (if iree_status_is_ok status then Some (Returns, [Wait_ended 5000])
      else if iree_status_is_deadline_exceeded status then
        map_option
          (\<lambda>(r, effs). (r, Wait_ended 5000
                            # Log_warn ''Still waiting for worker {} to terminate'' [nm]
                            # effs))
          (WaitForShutdown_loop nm later)
      else case SHORTFIN_THROW_IF_ERROR status of
        Some e \<Rightarrow> Some (Throws e, [Wait_ended 5000])
      | None \<Rightarrow> map_option (\<lambda>(r, effs). (r, Wait_ended 5000 # effs))
                  (WaitForShutdown_loop nm later))"

definition WaitForShutdown ::
  "iree_status list \<Rightarrow> 't Worker \<Rightarrow> (outcome \<times> 't effect list) option" where
  "WaitForShutdown statuses w =
     (if \<not> options_owned_thread w then
        Some (Throws (LogicError ''Cannot shutdown worker when owned_thread=false''), [])
      else if \<not> thread w then
        Some (Throws (LogicError ''Cannot Shutdown a Worker that was not started''), [])
      else WaitForShutdown_loop (options_name w) statuses)"

text \<open>
  One call of \<^verbatim>\<open>iree_loop_drain(loop_, quantum)\<close> seen from \<^verbatim>\<open>RunOnThread\<close>: the status
  it returns and the Worker it leaves behind, after the callbacks the loop ran and
  the calls other threads made meanwhile.
\<close>

type_synonym 't drain = "'t Worker \<Rightarrow> iree_status \<times> 't Worker"

text \<open>
  The \<^verbatim>\<open>for (;;)\<close> of \<^verbatim>\<open>RunLoop\<close>: leave when \<open>kill\<close> is set, else drain and go on
  unless the drain failed. One element of the list per call of the drain; \<open>None\<close>
  means that the loop is still running after them.
\<close>

fun RunLoop_cycle :: "'t drain list \<Rightarrow> 't Worker \<Rightarrow> (iree_status \<times> 't Worker) option" where
  "RunLoop_cycle drains w =
     (if kill w then Some (IREE_OK, w)
      else case drains of
        [] \<Rightarrow> None
      | d # later \<Rightarrow>
          (case d w of
             (st, w') \<Rightarrow> if iree_status_is_ok st then RunLoop_cycle later w'
                         else Some (st, w')))"

declare RunLoop_cycle.simps [simp del]

definition RunLoop ::
  "iree_status \<Rightarrow> 't drain list \<Rightarrow> 't Worker \<Rightarrow> (iree_status \<times> 't Worker) option" where
  "RunLoop armed drains w =
     (case ScheduleExternalTransactEvent armed w of
        (st, w1) \<Rightarrow> if iree_status_is_ok st then RunLoop_cycle drains w1
                    else Some (st, w1))"

text \<open>
  \<^verbatim>\<open>RunOnThread\<close>: the hooks \<^verbatim>\<open>OnThreadStart\<close> and \<^verbatim>\<open>OnThreadStop\<close> do nothing; a failed
  loop aborts the process; otherwise the "ended" event is set and 0 is returned.
\<close>

definition RunOnThread ::
  "iree_status \<Rightarrow> 't drain list \<Rightarrow> 't Worker \<Rightarrow> (outcome \<times> 't Worker) option" where
  "RunOnThread armed drains w =
     map_option
       (\<lambda>(loop_status, w').
          if \<not> iree_status_is_ok loop_status then (Aborts loop_status, w')
          else (Returns, w'\<lparr>signal_ended := True\<rparr>))
       (RunLoop armed drains w)"

definition RunOnCurrentThread ::
  "iree_status \<Rightarrow> 't drain list \<Rightarrow> 't Worker \<Rightarrow> (outcome \<times> 't Worker) option" where
  "RunOnCurrentThread armed drains w =
     (if options_owned_thread w then
        Some (Throws (LogicError
          ''Cannot RunOnCurrentThread if worker was configured for owned_thread''), w)
      else if has_run w then
        Some (Throws (LogicError ''Cannot RunOnCurrentThread if already finished''), w)
      else RunOnThread armed drains (w\<lparr>has_run := True\<rparr>))"

section \<open>The older Worker of \<^verbatim>\<open>shortfin\<close> (process/worker.cc)\<close>

record 't ProcessWorker =
  pw_options_name :: string
  pw_thread :: bool
  pw_kill :: bool
  pw_signal_transact :: bool
  pw_signal_ended :: bool
  pw_pending_thunks :: "'t list"
  pw_next_thunks :: "'t list"

definition ProcessWorker_TransactLoop ::
  "iree_status \<Rightarrow> 't ProcessWorker \<Rightarrow> iree_status \<times> 't effect list \<times> 't ProcessWorker" where
  "ProcessWorker_TransactLoop signal_status v =
     (if \<not> iree_status_is_ok signal_status then (signal_status, [], v)
      else
        (let v1 = v\<lparr>pw_signal_transact := False\<rparr> in
         if pw_kill v1 then (IREE_OK, [Log_info ''Transact loop!'' []], v1)
         else
           (let v2 = v1\<lparr>pw_next_thunks := pw_pending_thunks v1,
                         pw_pending_thunks := pw_next_thunks v1\<rparr>;
                calls = map Thunk_call (pw_next_thunks v2);
                v3 = v2\<lparr>pw_next_thunks := []\<rparr>
            in (IREE_OK, Log_info ''Transact loop!'' [] # calls, v3))))"

definition ProcessWorker_Kill :: "'t ProcessWorker \<Rightarrow> outcome \<times> 't ProcessWorker" where
  "ProcessWorker_Kill v =
     (if \<not> pw_thread v then
        (Throws (LogicError ''Cannot Drain a Worker that was not started''), v)
      else (Returns, (v\<lparr>pw_kill := True\<rparr>)\<lparr>pw_signal_transact := True\<rparr>))"

section \<open>The Worker among its threads\<close>

text \<open>
  Where the worker thread stands: \<^verbatim>\<open>RunOnThread\<close> not entered yet, inside the loop
  between two callbacks, inside the \<^verbatim>\<open>for\<close> of \<^verbatim>\<open>TransactLoop\<close> about to invoke the
  thunk at the given index of \<open>next_thunks\<close>, or past the loop.
\<close>

datatype loop_pc = Not_running | Idle | In_transact nat | Exited

type_synonym 't sched = "'t Worker \<times> loop_pc"

text \<open>
  The steps the threads take on one Worker. Each is a piece of the source that runs
  without another thread in between: a critical section, the setting of an event, or
  code only the worker thread runs. \<open>'p\<close> names the calling thread.
  \<^item> \<open>Start_call\<close>, \<open>RunOnCurrentThread_call\<close>: the two functions up to the point
    where \<^verbatim>\<open>RunOnThread\<close> is entered (by the new thread, or by the caller).
  \<^item> \<open>Thread_entry st\<close>: \<^verbatim>\<open>RunOnThread\<close> registers the transact wait, with status \<open>st\<close>.
  \<^item> \<open>Push p t\<close>: the critical section of \<^verbatim>\<open>CallThreadsafe(t)\<close> on thread \<open>p\<close>.
  \<^item> \<open>Set_kill\<close>: the check and the critical section of \<^verbatim>\<open>Kill\<close>.
  \<^item> \<open>Set_event\<close>: \<^verbatim>\<open>signal_transact_.set()\<close>, the last statement of both.
  \<^item> \<open>Transact_begin st\<close>: the loop calls \<^verbatim>\<open>TransactLoop(st)\<close>, which runs to the end of
    its critical section.
  \<^item> \<open>Transact_thunk\<close>: one iteration of the \<^verbatim>\<open>for\<close> over \<open>next_thunks\<close>.
  \<^item> \<open>Transact_end st\<close>: \<open>next_thunks\<close> is cleared and the wait registered again, with
    status \<open>st\<close>.
  \<^item> \<open>Thread_leave\<close>: \<^verbatim>\<open>RunLoop\<close> sees \<open>kill\<close> and \<^verbatim>\<open>RunOnThread\<close> runs to its end.
\<close>

datatype ('p, 't) event =
    Start_call
  | RunOnCurrentThread_call
  | Thread_entry iree_status
  | Push 'p 't
  | Set_kill
  | Set_event
  | Transact_begin iree_status
  | Transact_thunk
  | Transact_end iree_status
  | Thread_leave

text \<open>
  One step: \<open>None\<close> when the step cannot be taken in this state (the call throws before
  it changes anything, or the worker thread is somewhere else), otherwise the thunks
  that begin to execute in this step and the next state. The loop calls a callback
  once for a registered wait, and with an OK status only when the event is set.
\<close>

fun step :: "('p, 't) event \<Rightarrow> 't sched \<Rightarrow> ('t list \<times> 't sched) option" where
  "step Start_call (w, pc) =
     (if options_owned_thread w \<and> \<not> thread w then Some ([], (w\<lparr>thread := True\<rparr>, pc))
      else None)"
| "step RunOnCurrentThread_call (w, pc) =
     (if \<not> options_owned_thread w \<and> \<not> has_run w then Some ([], (w\<lparr>has_run := True\<rparr>, pc))
      else None)"
| "step (Thread_entry st) (w, pc) =
     (if pc = Not_running \<and> (thread w \<or> has_run w) then
        (case ScheduleExternalTransactEvent st w of
           (st', w') \<Rightarrow> Some ([], (w', if iree_status_is_ok st' then Idle else Exited)))
      else None)"
| "step (Push p t) (w, pc) =
     Some ([], (w\<lparr>pending_thunks := pending_thunks w @ [t]\<rparr>, pc))"
| "step Set_kill (w, pc) =
     (if options_owned_thread w \<and> \<not> thread w then None
      else Some ([], (w\<lparr>kill := True\<rparr>, pc)))"
| "step Set_event (w, pc) = Some ([], (w\<lparr>signal_transact := True\<rparr>, pc))"
| "step (Transact_begin st) (w, pc) =
     (if pc = Idle \<and> transact_wait w \<and> (iree_status_is_ok st \<longrightarrow> signal_transact w) then
        (let w0 = w\<lparr>transact_wait := False\<rparr> in
         if \<not> iree_status_is_ok st then Some ([], (w0, Idle))
         else case TransactLoop_locked w0 of
           (True, w1) \<Rightarrow> Some ([], (w1, Idle))
         | (False, w2) \<Rightarrow> Some ([], (w2, In_transact 0)))
      else None)"
| "step Transact_thunk (w, pc) =
     (case pc of
        In_transact i \<Rightarrow>
          if i < length (next_thunks w) then Some ([next_thunks w ! i], (w, In_transact (Suc i)))
          else None
      | _ \<Rightarrow> None)"
| "step (Transact_end st) (w, pc) =
     (case pc of
        In_transact i \<Rightarrow>
          if i < length (next_thunks w) then None
          else (case ScheduleExternalTransactEvent st (w\<lparr>next_thunks := []\<rparr>) of
                  (st', w') \<Rightarrow> Some ([], (w', Idle)))
      | _ \<Rightarrow> None)"
| "step Thread_leave (w, pc) =
     (if pc = Idle \<and> kill w then Some ([], (w\<lparr>signal_ended := True\<rparr>, Exited))
      else None)"

text \<open>A sequence of steps, with the thunks in the order they began to execute.\<close>

fun run :: "('p, 't) event list \<Rightarrow> 't sched \<Rightarrow> ('t list \<times> 't sched) option" where
  "run [] s = Some ([], s)"
| "run (e # es) s =
     (case step e s of
        None \<Rightarrow> None
      | Some (out, s') \<Rightarrow>
          (case run es s' of
             None \<Rightarrow> None
           | Some (outs, s'') \<Rightarrow> Some (out @ outs, s'')))"

text \<open>The thunks handed to \<^verbatim>\<open>CallThreadsafe\<close> in a sequence of steps, in that order.\<close>

fun pushed :: "('p, 't) event \<Rightarrow> 't list" where
  "pushed (Push p t) = [t]"
| "pushed _ = []"

definition pushes :: "('p, 't) event list \<Rightarrow> 't list" where
  "pushes es = concat (map pushed es)"

text \<open>
  The thunks the Worker holds and has not begun to execute: the rest of
  \<open>next_thunks\<close> during a transact cycle, then \<open>pending_thunks\<close>.
\<close>

fun waiting :: "'t sched \<Rightarrow> 't list" where
  "waiting (w, In_transact i) = drop i (next_thunks w) @ pending_thunks w"
| "waiting (w, _) = next_thunks w @ pending_thunks w"

text \<open>
  Between two transact cycles \<open>next_thunks\<close> is empty, and inside a cycle the index of
  the \<^verbatim>\<open>for\<close> does not pass its end.
\<close>

definition cycle_inv :: "'t sched \<Rightarrow> bool" where
  "cycle_inv s =
     (case snd s of
        In_transact i \<Rightarrow> i \<le> length (next_thunks (fst s))
      | _ \<Rightarrow> next_thunks (fst s) = [])"

text \<open>
  A run of two producers: thread 1 hands in thunks 10 and 11, thread 2 hands in 20
  while the Worker, run on the caller's thread, is between its first two cycles.
\<close>

definition fifo_demo :: "(nat, nat) event list" where
  "fifo_demo =
     [Push 1 10, Set_event, RunOnCurrentThread_call, Thread_entry IREE_OK,
      Push 2 20, Transact_begin IREE_OK, Push 1 11, Transact_thunk, Set_event,
      Transact_thunk, Transact_end IREE_OK, Transact_begin IREE_OK, Transact_thunk]"

text \<open>
  The state a Worker is in once a transact cycle has seen \<open>kill\<close>: the flag is set,
  no transact wait is registered, and the worker thread is in its loop or past it.
\<close>

definition kill_observed :: "'t sched \<Rightarrow> bool" where
  "kill_observed s =
     (kill (fst s) \<and> \<not> transact_wait (fst s) \<and> (snd s = Idle \<or> snd s = Exited))"

text \<open>
  A Worker with its own thread, started, in its loop, holding two thunks handed in
  before \<^verbatim>\<open>Kill\<close> was called; and what the threads do after the cycle that sees the
  flag.
\<close>

definition kill_demo :: "nat sched" where
  "kill_demo =
     ((Worker_new ''w'' True)
        \<lparr>thread := True, kill := True, signal_transact := True,
         pending_thunks := [1, 2], transact_wait := True\<rparr>, Idle)"

definition kill_demo_after :: "(nat, nat) event list" where
  "kill_demo_after = [Push 0 3, Set_event, Set_kill, Set_event, Thread_leave, Push 0 4]"

text \<open>The characters of a device name after the system device class.\<close>

definition digits :: "char set" where
  "digits = set ''0123456789''"

definition device_name_chars :: "char set" where
  "device_name_chars = digits \<union> {CHR '':'', CHR ''@'', CHR '',''}"

text \<open>The Worker after the given calls of the drain, one after the other.\<close>

fun drained :: "'t drain list \<Rightarrow> 't Worker \<Rightarrow> 't Worker" where
  "drained [] w = w"
| "drained (d # ds) w = drained ds (snd (d w))"

text \<open>The thunks invoked among some effects, in order.\<close>

fun thunk_calls :: "'t effect list \<Rightarrow> 't list" where
  "thunk_calls [] = []"
| "thunk_calls (Thunk_call t # effs) = t # thunk_calls effs"
| "thunk_calls (_ # effs) = thunk_calls effs"

text \<open>One timed-out slice of \<^verbatim>\<open>WaitForShutdown\<close>: the wait and the warning.\<close>

definition slice_timed_out :: "string \<Rightarrow> 't effect list" where
  "slice_timed_out nm =
     [Wait_ended 5000, Log_warn ''Still waiting for worker {} to terminate'' [nm]]"

text \<open>Drains for the examples: one that changes nothing, one during which \<^verbatim>\<open>Kill\<close> is called.\<close>

definition drain_idle :: "nat drain" where
  "drain_idle w = (IREE_OK, w)"

definition drain_killed :: "nat drain" where
  "drain_killed w = (IREE_OK, snd (Kill w))"

text \<open>Two Workers, one of each kind, holding the same three thunks.\<close>

definition transact_demo :: "nat Worker" where
  "transact_demo = (Worker_new ''w'' False)\<lparr>pending_thunks := [7, 8, 9], signal_transact := True\<rparr>"

definition transact_demo_old :: "nat ProcessWorker" where
  "transact_demo_old =
     \<lparr> pw_options_name = ''w'', pw_thread = True, pw_kill = False,
       pw_signal_transact = True, pw_signal_ended = False,
       pw_pending_thunks = [7, 8, 9], pw_next_thunks = [] \<rparr>"

section \<open>Devices, affinities and the scope's device selector\<close>

text \<open>
  \<^verbatim>\<open>LocalDevice\<close> as its constructor fills it; the HAL device handle is opaque and left
  out. A \<^verbatim>\<open>LocalDevice*\<close> is modelled by the device it points to.
\<close>

record LocalDevice =
  address :: LocalDeviceAddress
  node_affinity :: int
  node_locked :: bool

definition LocalDevice_new :: "LocalDeviceAddress \<Rightarrow> int \<Rightarrow> bool \<Rightarrow> LocalDevice" where
  "LocalDevice_new a n l = \<lparr> address = a, node_affinity = n, node_locked = l \<rparr>"

text \<open>The pair of system device class and instance ordinal of a device.\<close>

definition instance_key :: "LocalDevice \<Rightarrow> string \<times> host_size" where
  "instance_key d = (system_device_class (address d), instance_ordinal (address d))"

text \<open>
  Modelled from the spec: \<^verbatim>\<open>DeviceAffinity\<close>, whose header \<^verbatim>\<open>shortfin/local_device.h\<close> is
  missing. The spec gives it as an optional device and a bitmask of
  at most 64 queues.
\<close>

record DeviceAffinity =
  device :: "LocalDevice option"
  queue_affinity :: "64 word"

text \<open>
  Modelled from the spec: the constructor \<^verbatim>\<open>DeviceAffinity()\<close> of the missing header;
  without a device the affinity is empty.
\<close>

definition DeviceAffinity_empty :: DeviceAffinity where
  "DeviceAffinity_empty = \<lparr> device = None, queue_affinity = 0 \<rparr>"

text \<open>
  Modelled from the spec: the constructor \<^verbatim>\<open>DeviceAffinity(LocalDevice*)\<close> of the missing
  header; the affinity of one device selects the queue of that device in the mask.
\<close>

definition DeviceAffinity_of :: "LocalDevice \<Rightarrow> DeviceAffinity" where
  "DeviceAffinity_of d =
     \<lparr> device = Some d, queue_affinity = push_bit (unat (queue_ordinal (address d))) 1 \<rparr>"

text \<open>
  What \<^verbatim>\<open>operator|\<close> does when one of its operands holds no device. Neither the spec
  nor the sources say, so it is a parameter of everything that unions affinities.
\<close>

type_synonym deviceless_or = "DeviceAffinity \<Rightarrow> DeviceAffinity \<Rightarrow> exn + DeviceAffinity"

text \<open>
  Modelled from the spec: \<^verbatim>\<open>operator|\<close> of \<^verbatim>\<open>DeviceAffinity\<close>, declared in the same missing
  header. By the spec the queue mask of the union is the bitwise or of the two masks,
  and the operation fails with an invalid-argument error when two contributing
  devices differ in system device class or instance ordinal ("cross-instance
  affinity"). An operand without a device is left to the parameter \<open>dl\<close>.
\<close>

definition affinity_or ::
  "deviceless_or \<Rightarrow> DeviceAffinity \<Rightarrow> DeviceAffinity \<Rightarrow> exn + DeviceAffinity" where
  "affinity_or dl a b =
     (case (device a, device b) of
        (Some da, Some db) \<Rightarrow>
          if instance_key da = instance_key db then
            Inr \<lparr> device = Some da, queue_affinity = queue_affinity a OR queue_affinity b \<rparr>
          else Inl (InvalidArgument ''cross-instance affinity'')
      | _ \<Rightarrow> dl a b)"

text \<open>
  For the examples: a union that, for an operand without a device, keeps the device
  of the other operand and ors the masks.
\<close>

definition deviceless_keeps_other :: deviceless_or where
  "deviceless_keeps_other a b =
     Inr \<lparr> device = (case device a of None \<Rightarrow> device b | Some d \<Rightarrow> Some d),
           queue_affinity = queue_affinity a OR queue_affinity b \<rparr>"












text \<open>
  Two queues of one GPU, a queue of a second GPU, and a scope holding the three
  (scenario S3 of the spec has the first and the third).
\<close>

definition gpu_address :: "host_size \<Rightarrow> host_size \<Rightarrow> LocalDeviceAddress" where
  "gpu_address inst queue =
     \<lparr> system_device_class = ''gpu'', logical_device_class = ''gpu'',
       hal_driver_prefix = ''hip'', instance_ordinal = inst, queue_ordinal = queue,
       instance_topology_address = [0],
       device_name = ''gpu:'' @ fmt_size inst @ '':'' @ fmt_size queue @ CHR ''@'' # ''0'' \<rparr>"

definition gpu :: "host_size \<Rightarrow> host_size \<Rightarrow> LocalDevice" where
  "gpu inst queue = LocalDevice_new (gpu_address inst queue) 0 False"



section \<open>Program invocations (program.h)\<close>

datatype ProgramInvocationModel = COARSE_FENCES | MODEL_NONE | UNKNOWN

datatype ProgramResourceBarrier = BARRIER_NONE | BARRIER_READ | BARRIER_WRITE

text \<open>
  Semaphores are opaque handles, a fence is a list of semaphores with the timepoints
  to reach, and a VM reference is either an opaque object or a fence.
\<close>

type_synonym semaphore = nat

type_synonym fence = "(semaphore \<times> 64 word) list"

datatype vm_ref = Object_ref nat | Fence_ref fence

text \<open>
  The members of \<^verbatim>\<open>ProgramInvocation\<close>, without the trailing underscore: the invocation
  model of the parameters, the trailing argument list, and the fields the header
  declares (the result list, the lazily created wait fence, the signal semaphore
  and its timepoint, the device selection, the scheduled flag). Null pointers are
  \<open>None\<close>.
\<close>

record ProgramInvocation =
  invocation_model :: ProgramInvocationModel
  arg_list :: "vm_ref list"
  result_list :: "vm_ref list option"
  wait_fence :: "fence option"
  signal_sem :: "semaphore option"
  signal_timepoint :: "64 word"
  device_selection :: DeviceAffinity
  scheduled :: bool

text \<open>\<^verbatim>\<open>coarse_signal()\<close>, defined in the header: the pair of the two signal fields.\<close>

definition coarse_signal :: "ProgramInvocation \<Rightarrow> semaphore option \<times> 64 word" where
  "coarse_signal iv = (signal_sem iv, signal_timepoint iv)"

text \<open>
  Modelled from the spec: \<^verbatim>\<open>ProgramInvocation::New\<close>, whose body (\<^verbatim>\<open>program.cc\<close>) is
  missing. The fields start from the member initialisers of the
  header (no result list, no signal semaphore, timepoint 0, not scheduled); in the
  state the spec calls BUILT the wait fence is not allocated, the argument list is
  empty and nothing is selected.
\<close>

definition ProgramInvocation_New :: "ProgramInvocationModel \<Rightarrow> ProgramInvocation" where
  "ProgramInvocation_New m =
     \<lparr> invocation_model = m, arg_list = [], result_list = None, wait_fence = None,
       signal_sem = None, signal_timepoint = 0, device_selection = DeviceAffinity_empty,
       scheduled = False \<rparr>"

text \<open>
  Modelled from the spec: \<^verbatim>\<open>CheckNotScheduled\<close>, declared in the header, whose body
  (\<^verbatim>\<open>program.cc\<close>) is missing. It fails with a logic error on a scheduled invocation
  ("mutation of a SCHEDULED Invocation").
\<close>

definition CheckNotScheduled :: "ProgramInvocation \<Rightarrow> exn option" where
  "CheckNotScheduled iv =
     (if scheduled iv then Some (LogicError ''mutation of a SCHEDULED Invocation'') else None)"

text \<open>
  Modelled from the spec: the two \<^verbatim>\<open>AddArg\<close> overloads for a reference (moved in, or
  borrowed), whose bodies (\<^verbatim>\<open>program.cc\<close>) are missing. They append the reference
  unchanged, with no device or barrier effect; after scheduling they raise the logic
  error.
\<close>

definition AddArg_ref :: "vm_ref \<Rightarrow> ProgramInvocation \<Rightarrow> outcome \<times> ProgramInvocation" where
  "AddArg_ref r iv =
     (case CheckNotScheduled iv of
        Some e \<Rightarrow> (Throws e, iv)
      | None \<Rightarrow> (Returns, iv\<lparr>arg_list := arg_list iv @ [r]\<rparr>))"

text \<open>
  Modelled from the spec: \<^verbatim>\<open>DeviceSelect\<close>, whose body (\<^verbatim>\<open>program.cc\<close>) is missing. It
  unions the affinity with the current selection and fails if the union is refused;
  after scheduling it raises the logic error.
\<close>

definition DeviceSelect ::
  "deviceless_or \<Rightarrow> DeviceAffinity \<Rightarrow> ProgramInvocation \<Rightarrow> outcome \<times> ProgramInvocation" where
  "DeviceSelect dl a iv =
     (case CheckNotScheduled iv of
        Some e \<Rightarrow> (Throws e, iv)
      | None \<Rightarrow>
          (case affinity_or dl (device_selection iv) a of
             Inl e \<Rightarrow> (Throws e, iv)
           | Inr u \<Rightarrow> (Returns, iv\<lparr>device_selection := u\<rparr>)))"

text \<open>
  Modelled from the spec: \<^verbatim>\<open>wait_insert\<close>, whose body (\<^verbatim>\<open>program.cc\<close>) is missing. It adds
  semaphores to the wait fence, creating it when needed.
\<close>

definition wait_insert :: "fence \<Rightarrow> ProgramInvocation \<Rightarrow> ProgramInvocation" where
  "wait_insert sems iv =
     iv\<lparr>wait_fence := Some ((case wait_fence iv of None \<Rightarrow> [] | Some f \<Rightarrow> f) @ sems)\<rparr>"

text \<open>
  Modelled from the spec: \<^verbatim>\<open>ProgramInvocationMarshalable\<close>, whose header
  \<^verbatim>\<open>shortfin/local/program_interfaces.h\<close> is missing. A marshalable hands back a
  reference for the argument list, names its device, and knows what a use under a
  barrier has to wait for (a read waits for the last write, a write for every use).
\<close>

record Marshalable =
  marshal_ref :: vm_ref
  marshal_device :: DeviceAffinity
  marshal_waits :: "ProgramResourceBarrier \<Rightarrow> fence"

text \<open>
  Modelled from the spec: \<^verbatim>\<open>AddArg\<close> for a marshalable, whose body (\<^verbatim>\<open>program.cc\<close>) is
  missing. With a barrier other than NONE the device of the marshalable is
  implicated through \<^verbatim>\<open>DeviceSelect\<close> and its waits enter the wait fence; then the
  reference is appended.
\<close>

definition AddArg_marshalable ::
  "deviceless_or \<Rightarrow> Marshalable \<Rightarrow> ProgramResourceBarrier \<Rightarrow> ProgramInvocation
     \<Rightarrow> outcome \<times> ProgramInvocation" where
  "AddArg_marshalable dl m barrier iv =
     (if barrier = BARRIER_NONE then AddArg_ref (marshal_ref m) iv
      else case DeviceSelect dl (marshal_device m) iv of
        (Returns, iv1) \<Rightarrow> AddArg_ref (marshal_ref m) (wait_insert (marshal_waits m barrier) iv1)
      | failed \<Rightarrow> failed)"

text \<open>How the future of an invocation stands when \<^verbatim>\<open>Invoke\<close> returns.\<close>

datatype future_state = Future_pending | Future_failed

text \<open>
  Modelled from the spec: \<^verbatim>\<open>Invoke\<close>, whose body (\<^verbatim>\<open>program.cc\<close>) is missing.
  \<open>timeline\<close> is the timeline
  of the selected queue: its semaphore and its current tip. The invocation must not
  be scheduled. For the coarse-fences model the device selection must not be empty
  (else the future fails); the wait fence is obtained, the signal semaphore and the
  timepoint \<open>tip + 1\<close> are recorded, and the wait fence and the signal fence become
  the last two arguments. The other models pass the arguments through. In every
  case the invocation ends up scheduled.
\<close>

definition Invoke ::
  "semaphore \<times> 64 word \<Rightarrow> ProgramInvocation \<Rightarrow> (exn + future_state) \<times> ProgramInvocation" where
  "Invoke timeline iv =
     (case CheckNotScheduled iv of
        Some e \<Rightarrow> (Inl e, iv)
      | None \<Rightarrow>
          (case invocation_model iv of
             COARSE_FENCES \<Rightarrow>
               if device (device_selection iv) = None then
                 (Inr Future_failed, iv\<lparr>scheduled := True\<rparr>)
               else
                 (let waits = (case wait_fence iv of None \<Rightarrow> [] | Some f \<Rightarrow> f);
                      sem = fst timeline; tp = snd timeline + 1
                  in (Inr Future_pending,
                      iv\<lparr>arg_list := arg_list iv @ [Fence_ref waits, Fence_ref [(sem, tp)]],
                          wait_fence := Some waits, signal_sem := Some sem,
                          signal_timepoint := tp, scheduled := True\<rparr>))
           | _ \<Rightarrow> (Inr Future_pending, iv\<lparr>scheduled := True\<rparr>)))"

text \<open>
  What user code can call on an invocation before it hands it to \<^verbatim>\<open>Invoke\<close>, and the
  invocation after a sequence of such calls (a call that raises leaves it as the
  call left it, and the caller goes on).
\<close>

datatype build_call =
    Call_AddArg_ref vm_ref
  | Call_AddArg_marshalable Marshalable ProgramResourceBarrier
  | Call_DeviceSelect DeviceAffinity
  | Call_wait_insert fence

fun apply_call ::
  "deviceless_or \<Rightarrow> build_call \<Rightarrow> ProgramInvocation \<Rightarrow> outcome \<times> ProgramInvocation" where
  "apply_call dl (Call_AddArg_ref r) iv = AddArg_ref r iv"
| "apply_call dl (Call_AddArg_marshalable m b) iv = AddArg_marshalable dl m b iv"
| "apply_call dl (Call_DeviceSelect a) iv = DeviceSelect dl a iv"
| "apply_call dl (Call_wait_insert f) iv = (Returns, wait_insert f iv)"

fun build_calls ::
  "deviceless_or \<Rightarrow> build_call list \<Rightarrow> ProgramInvocation \<Rightarrow> ProgramInvocation" where
  "build_calls dl [] iv = iv"
| "build_calls dl (c # cs) iv = build_calls dl cs (snd (apply_call dl c iv))"

text \<open>An array on queue 0 of the first GPU, used under a READ barrier in the examples.\<close>

definition demo_array :: Marshalable where
  "demo_array =
     \<lparr> marshal_ref = Object_ref 1, marshal_device = DeviceAffinity_of (gpu 0 0),
       marshal_waits = (\<lambda>b. [(5, 3)]) \<rparr>"

definition demo_invocation :: ProgramInvocation where
  "demo_invocation =
     build_calls deviceless_keeps_other
       [Call_AddArg_marshalable demo_array BARRIER_READ, Call_AddArg_ref (Object_ref 2)]
       (ProgramInvocation_New COARSE_FENCES)"

chapter \<open>Properties\<close>

section \<open>Thunks run in the order they were handed in\<close>

lemma step_waiting:
  assumes "cycle_inv s" "step e s = Some (out, s')"
  shows "cycle_inv s' \<and> out @ waiting s' = waiting s @ pushed e"
proof (cases s)
  case (Pair w pc)
  show ?thesis
  proof (cases e)
    case (Transact_begin st)
    then show ?thesis using assms Pair
      by (auto simp: cycle_inv_def TransactLoop_locked_def Let_def
          split: if_splits prod.splits loop_pc.splits)
  next
    case Transact_thunk
    then show ?thesis using assms Pair
      by (auto simp: cycle_inv_def Cons_nth_drop_Suc split: if_splits loop_pc.splits)
  next
    case (Transact_end st)
    then show ?thesis using assms Pair
      by (auto simp: cycle_inv_def ScheduleExternalTransactEvent_def
          split: if_splits loop_pc.splits)
  next
    case (Thread_entry st)
    then show ?thesis using assms Pair
      by (auto simp: cycle_inv_def ScheduleExternalTransactEvent_def
          split: if_splits loop_pc.splits)
  qed (use assms Pair in \<open>auto simp: cycle_inv_def split: if_splits loop_pc.splits\<close>)
qed

lemma run_waiting:
  "cycle_inv s \<Longrightarrow> run es s = Some (outs, s') \<Longrightarrow>
     cycle_inv s' \<and> outs @ waiting s' = waiting s @ pushes es"
proof (induction es arbitrary: s outs)
  case Nil
  then show ?case by (simp add: pushes_def)
next
  case (Cons e es)
  from Cons.prems(2) obtain out s1 outs1 where
    st: "step e s = Some (out, s1)" and rn: "run es s1 = Some (outs1, s')"
    and o: "outs = out @ outs1"
    by (auto split: option.splits)
  from step_waiting[OF Cons.prems(1) st]
  have i1: "cycle_inv s1" and w1: "out @ waiting s1 = waiting s @ pushed e" by auto
  from Cons.IH[OF i1 rn]
  have i2: "cycle_inv s'" and w2: "outs1 @ waiting s' = waiting s1 @ pushes es" by auto
  have "outs @ waiting s' = out @ waiting s1 @ pushes es" using o w2 by simp
  also have "\<dots> = waiting s @ pushed e @ pushes es" using w1 by (metis append_assoc)
  finally show ?case using i2 by (simp add: pushes_def)
qed

lemma pushes_split:
  assumes "i < length es" "es ! i = Push p t"
  shows "pushes es = pushes (take i es) @ t # pushes (drop (Suc i) es)"
proof -
  have "es = take i es @ es ! i # drop (Suc i) es"
    using assms(1) by (simp add: id_take_nth_drop)
  then have "pushes es = pushes (take i es @ Push p t # drop (Suc i) es)"
    using assms(2) by simp
  then show ?thesis by (simp add: pushes_def)
qed

lemma pushes_two:
  assumes "i < j" "j < length es" "es ! i = Push p f1" "es ! j = Push q f2"
  shows "\<exists>xs ys zs. pushes es = xs @ f1 # ys @ f2 # zs"
proof -
  let ?r = "drop (Suc i) es"
  have 1: "pushes es = pushes (take i es) @ f1 # pushes ?r"
    using assms by (intro pushes_split[where p=p]) auto
  have "j - Suc i < length ?r" "?r ! (j - Suc i) = Push q f2"
    using assms by auto
  then have "pushes ?r = pushes (take (j - Suc i) ?r) @ f2 # pushes (drop (Suc (j - Suc i)) ?r)"
    by (rule pushes_split)
  with 1 show ?thesis by metis
qed

lemma fifo_positions:
  assumes "outs @ rest = xs @ f1 # ys @ f2 # zs"
    and "distinct (outs @ rest)" and "f2 \<in> set outs"
  shows "\<exists>k l. k < l \<and> l < length outs \<and> outs ! k = f1 \<and> outs ! l = f2"
proof -
  let ?k = "length xs" and ?l = "length xs + Suc (length ys)"
  have all: "(outs @ rest) ! ?l = f2" "(outs @ rest) ! ?k = f1"
    unfolding assms(1) by (simp_all add: nth_append)
  obtain m where m: "m < length outs" "outs ! m = f2"
    using assms(3) by (auto simp: in_set_conv_nth)
  then have "(outs @ rest) ! m = f2" by (simp add: nth_append)
  moreover have "?l < length (outs @ rest)" unfolding assms(1) by simp
  moreover have "m < length (outs @ rest)" using m by simp
  ultimately have "m = ?l"
    using assms(2) all(1) by (metis nth_eq_iff_index_eq)
  then have l: "?l < length outs" using m by simp
  then have "outs ! ?l = f2" "outs ! ?k = f1"
    using all by (simp_all add: nth_append)
  with l show ?thesis by (intro exI[of _ ?k] exI[of _ ?l]) simp
qed

text \<open>
  Claim C1. Take any interleaving of the steps of any number of threads on a fresh
  Worker, and let \<open>outs\<close> be the thunks in the order they began to execute. Then
  \<open>outs\<close> is an initial part of the thunks in the order their \<^verbatim>\<open>CallThreadsafe\<close> pushed
  them. In particular, when a thread \<open>p\<close> calls \<^verbatim>\<open>CallThreadsafe(f1)\<close> and later
  \<^verbatim>\<open>CallThreadsafe(f2)\<close>, the thunks being told apart, and \<open>f2\<close> has begun to execute,
  then \<open>f1\<close> began to execute before it. A call of \<^verbatim>\<open>CallThreadsafe\<close> is the push
  followed by the setting of the event, wherever the worker thread stands, and it
  appends its thunk to the pending list.
\<close>

theorem CallThreadsafe_fifo:
  assumes "run es (Worker_new nm owned, Not_running) = Some (outs, s')"
    and "i < j" "j < length es" "es ! i = Push p f1" "es ! j = Push p f2"
    and "distinct (pushes es)" and "f2 \<in> set outs"
  shows "prefix outs (pushes es) \<and>
         (\<exists>k l. k < l \<and> l < length outs \<and> outs ! k = f1 \<and> outs ! l = f2) \<and>
         run [Push p t, Set_event] (w, pc) = Some ([], (CallThreadsafe t w, pc)) \<and>
         pending_thunks (CallThreadsafe t w) = pending_thunks w @ [t] \<and>
         signal_transact (CallThreadsafe t w)"
proof -
  have call: "run [Push p t, Set_event] (w, pc) = Some ([], (CallThreadsafe t w, pc))"
    "pending_thunks (CallThreadsafe t w) = pending_thunks w @ [t]"
    "signal_transact (CallThreadsafe t w)"
    by (simp_all add: CallThreadsafe_def)
  have "cycle_inv (Worker_new nm owned, Not_running)"
    by (simp add: cycle_inv_def Worker_new_def)
  from run_waiting[OF this assms(1)]
  have eq: "outs @ waiting s' = pushes es"
    by (simp add: Worker_new_def)
  obtain xs ys zs where "pushes es = xs @ f1 # ys @ f2 # zs"
    using pushes_two[OF assms(2-5)] by blast
  with eq have "outs @ waiting s' = xs @ f1 # ys @ f2 # zs" by simp
  moreover have "distinct (outs @ waiting s')" using eq assms(6) by simp
  ultimately have "\<exists>k l. k < l \<and> l < length outs \<and> outs ! k = f1 \<and> outs ! l = f2"
    using assms(7) by (rule fifo_positions)
  moreover have "prefix outs (pushes es)" using eq by (metis prefixI)
  ultimately show ?thesis using call by simp
qed

lemma fifo_demo_run:
  "\<exists>s'. run fifo_demo (Worker_new ''w'' False, Not_running) = Some ([10, 20, 11], s')"
  by (simp add: fifo_demo_def Worker_new_def ScheduleExternalTransactEvent_def
      iree_status_is_ok_def TransactLoop_locked_def)

theorem CallThreadsafe_fifo_witness:
  "prefix [10, 20, 11] (pushes fifo_demo) \<and>
   (\<exists>k l. k < l \<and> l < length [10, 20, 11::nat] \<and>
          [10, 20, 11::nat] ! k = 10 \<and> [10, 20, 11::nat] ! l = 11) \<and>
   pending_thunks (CallThreadsafe 12 (fst kill_demo)) = [1, 2, 12]"
proof -
  obtain s' where
    r: "run fifo_demo (Worker_new ''w'' False, Not_running) = Some ([10, 20, 11], s')"
    using fifo_demo_run by blast
  have "(0::nat) < 6" "6 < length fifo_demo"
    "fifo_demo ! 0 = Push 1 10" "fifo_demo ! 6 = Push 1 11"
    "distinct (pushes fifo_demo)" "(11::nat) \<in> set [10, 20, 11]"
    by (simp_all add: fifo_demo_def pushes_def)
  from CallThreadsafe_fifo[OF r this, where t = 12 and w = "fst kill_demo" and pc = Idle]
  show ?thesis by (simp add: kill_demo_def Worker_new_def)
qed

section \<open>A cycle that sees the kill flag\<close>

lemma step_kill_observed:
  assumes "kill_observed s" "step e s = Some (out, s')"
  shows "kill_observed s' \<and> out = [] \<and>
         pending_thunks (fst s') = pending_thunks (fst s) @ pushed e"
proof (cases s)
  case (Pair w pc)
  then show ?thesis
    using assms
    by (cases e)
       (auto simp: kill_observed_def ScheduleExternalTransactEvent_def
             split: if_splits loop_pc.splits)
qed

lemma run_kill_observed:
  "kill_observed s \<Longrightarrow> run es s = Some (outs, s') \<Longrightarrow>
     kill_observed s' \<and> outs = [] \<and>
     pending_thunks (fst s') = pending_thunks (fst s) @ pushes es"
proof (induction es arbitrary: s outs)
  case Nil
  then show ?case by (simp add: pushes_def)
next
  case (Cons e es)
  from Cons.prems(2) obtain out s1 outs1 where
    st: "step e s = Some (out, s1)" and rn: "run es s1 = Some (outs1, s')"
    and o: "outs = out @ outs1"
    by (auto split: option.splits)
  from step_kill_observed[OF Cons.prems(1) st]
  have 1: "kill_observed s1" "out = []"
    "pending_thunks (fst s1) = pending_thunks (fst s) @ pushed e" by auto
  from Cons.IH[OF 1(1) rn]
  have 2: "kill_observed s'" "outs1 = []"
    "pending_thunks (fst s') = pending_thunks (fst s1) @ pushes es" by auto
  show ?case using 1 2 o by (simp add: pushes_def)
qed

lemma Transact_begin_kill:
  assumes "kill w" "step (Transact_begin IREE_OK) (w, pc) = Some (out, s1)"
  shows "out = [] \<and> s1 = (w\<lparr>transact_wait := False, signal_transact := False\<rparr>, Idle)"
  using assms
  by (auto simp: TransactLoop_locked_def iree_status_is_ok_def split: if_splits)

text \<open>
  Claim C2. Let \<open>kill\<close> be set when the loop calls \<^verbatim>\<open>TransactLoop\<close> with an OK status.
  The call returns OK from its critical section: it invokes no thunk, leaves
  \<open>pending_thunks\<close> as it was and registers no new wait. From then on, whatever the
  threads do (\<open>es\<close>), no thunk begins to execute, and the thunks that were pending
  stay in \<open>pending_thunks\<close>, followed by those handed in later.
\<close>

theorem kill_discards_pending:
  assumes "kill w"
    and "step (Transact_begin IREE_OK) (w, pc) = Some (out, s1)"
    and "run es s1 = Some (outs, s2)"
  shows "TransactLoop IREE_OK rearm w = (IREE_OK, [], w\<lparr>signal_transact := False\<rparr>) \<and>
         out = [] \<and> \<not> transact_wait (fst s1) \<and> pending_thunks (fst s1) = pending_thunks w \<and>
         outs = [] \<and> \<not> transact_wait (fst s2) \<and>
         pending_thunks (fst s2) = pending_thunks w @ pushes es"
proof -
  from Transact_begin_kill[OF assms(1,2)]
  have s1: "out = []" "s1 = (w\<lparr>transact_wait := False, signal_transact := False\<rparr>, Idle)"
    by auto
  then have k: "kill_observed s1"
    using assms(1) by (simp add: kill_observed_def)
  from run_kill_observed[OF k assms(3)]
  have "kill_observed s2" "outs = []"
    "pending_thunks (fst s2) = pending_thunks (fst s1) @ pushes es" by auto
  moreover have "TransactLoop IREE_OK rearm w = (IREE_OK, [], w\<lparr>signal_transact := False\<rparr>)"
    using assms(1)
    by (simp add: TransactLoop_def TransactLoop_locked_def iree_status_is_ok_def)
  ultimately show ?thesis using s1 by (simp add: kill_observed_def)
qed

lemma kill_demo_steps:
  "\<exists>s1 s2. step (Transact_begin IREE_OK :: (nat, nat) event) kill_demo = Some ([], s1) \<and>
           run kill_demo_after s1 = Some ([], s2)"
  by (simp add: kill_demo_def kill_demo_after_def Worker_new_def
      TransactLoop_locked_def iree_status_is_ok_def)

theorem kill_discards_pending_witness:
  "\<exists>s2. run kill_demo_after
          ((fst kill_demo)\<lparr>transact_wait := False, signal_transact := False\<rparr>, Idle)
        = Some ([], s2) \<and> pending_thunks (fst s2) = [1, 2, 3, 4]"
proof -
  obtain s1 s2 where
    a: "step (Transact_begin IREE_OK :: (nat, nat) event) (fst kill_demo, snd kill_demo)
          = Some ([], s1)"
    and b: "run kill_demo_after s1 = Some ([], s2)"
    using kill_demo_steps by auto
  have k: "kill (fst kill_demo)" by (simp add: kill_demo_def)
  have s1: "s1 = ((fst kill_demo)\<lparr>transact_wait := False, signal_transact := False\<rparr>, Idle)"
    using Transact_begin_kill[OF k a] by simp
  from kill_discards_pending[OF k a b, of IREE_OK]
  have "pending_thunks (fst s2) = pending_thunks (fst kill_demo) @ pushes kill_demo_after"
    by simp
  then have "pending_thunks (fst s2) = [1, 2, 3, 4]"
    by (simp add: kill_demo_def kill_demo_after_def pushes_def Worker_new_def)
  with b s1 show ?thesis by auto
qed

section \<open>Device names\<close>

lemma digit_char_mem: "k < 10 \<Longrightarrow> digit_char k \<in> digits"
  unfolding digit_char_def digits_def by (rule nth_mem) simp

lemma dec_string_digits: "set (dec_string n) \<subseteq> digits"
proof (induction n rule: dec_string.induct)
  case (1 n)
  show ?case
  proof (cases "n < 10")
    case True
    then show ?thesis
      using digit_char_mem[of n] by (subst dec_string.simps) simp
  next
    case False
    then show ?thesis
      using 1 digit_char_mem[of "n mod 10"] by (subst dec_string.simps) auto
  qed
qed

lemma fmt_size_chars: "set (fmt_size n) \<subseteq> device_name_chars"
  using dec_string_digits[of "unat n"] by (auto simp: fmt_size_def device_name_chars_def)

lemma fmt_join_chars:
  "(\<And>x. x \<in> set xs \<Longrightarrow> set x \<subseteq> A) \<Longrightarrow> set sep \<subseteq> A \<Longrightarrow> set (fmt_join xs sep) \<subseteq> A"
  by (induction xs sep rule: fmt_join.induct) auto

lemma fmt_join_sizes_chars:
  "set (fmt_join (map fmt_size topo) '','') \<subseteq> device_name_chars"
proof (rule fmt_join_chars)
  show "set '','' \<subseteq> device_name_chars" by (simp add: device_name_chars_def)
next
  fix x assume "x \<in> set (map fmt_size topo)"
  then show "set x \<subseteq> device_name_chars" using fmt_size_chars by auto
qed

lemma fmt_join_unfold:
  "fmt_join (x # xs) sep = x @ concat (map (\<lambda>y. sep @ y) xs)"
  by (induction xs arbitrary: x) simp_all

lemma fmt_format_device_name:
  "fmt_format device_name_format [a, b, c, d] = Some (a @ '':'' @ b @ '':'' @ c @ CHR ''@'' # d)"
  by (simp add: device_name_format_def)

text \<open>
  Claim C5. The constructor stores its arguments and sets \<open>device_name\<close> to the system
  device class, the instance ordinal and the queue ordinal in decimal, joined by
  colons, then an at sign, then the topology indices in decimal joined by commas.
  After the class the name holds digits, colons, the at sign and commas only, so no
  whitespace.
\<close>

theorem device_name_grammar:
  "LocalDeviceAddress_new s l h i q topo =
     Some \<lparr> system_device_class = s, logical_device_class = l, hal_driver_prefix = h,
            instance_ordinal = i, queue_ordinal = q, instance_topology_address = topo,
            device_name = s @ '':'' @ fmt_size i @ '':'' @ fmt_size q
                            @ CHR ''@'' # fmt_join (map fmt_size topo) '','' \<rparr>
   \<and> set ('':'' @ fmt_size i @ '':'' @ fmt_size q @ CHR ''@'' # fmt_join (map fmt_size topo) '','')
       \<subseteq> device_name_chars
   \<and> CHR '' '' \<notin> device_name_chars"
proof -
  have sep: "CHR '':'' \<in> device_name_chars" "CHR ''@'' \<in> device_name_chars"
    by (simp_all add: device_name_chars_def)
  have "set ('':'' @ fmt_size i @ '':'' @ fmt_size q @ CHR ''@'' # fmt_join (map fmt_size topo) '','')
          \<subseteq> device_name_chars"
    using fmt_size_chars[of i] fmt_size_chars[of q] fmt_join_sizes_chars[of topo] sep
    by simp
  moreover have "CHR '' '' \<notin> device_name_chars"
    by (simp add: device_name_chars_def digits_def)
  ultimately show ?thesis
    by (simp add: LocalDeviceAddress_new_def fmt_format_device_name)
qed

theorem device_name_grammar_witness:
  "map_option device_name (LocalDeviceAddress_new ''gpu'' ''gpu'' ''hip'' 0 12 [2, 30, 4])
     = Some (''gpu:0:12'' @ CHR ''@'' # ''2,30,4'')"
  using device_name_grammar[of "''gpu''" "''gpu''" "''hip''" 0 12 "[2, 30, 4]"]
  by (simp add: fmt_size_def dec_string.simps digit_char_def)

section \<open>Kill\<close>

text \<open>
  Claim C6, as the code has it. A Worker with its own thread that was not started
  refuses \<^verbatim>\<open>Kill\<close> with a logic error and stays as it was. A Worker without its own
  thread never refuses it, also before \<^verbatim>\<open>RunOnCurrentThread\<close>. Whenever \<^verbatim>\<open>Kill\<close> is
  not refused it sets the kill flag and the transact event and changes nothing
  else, wherever the worker thread stands (\<open>pc\<close>): among the threads it is the two
  steps that set the flag and the event. The older Worker, which always has its own
  thread, refuses \<^verbatim>\<open>Kill\<close> exactly when it was not started.
\<close>

theorem Kill_cases:
  "(options_owned_thread w \<and> \<not> thread w \<longrightarrow>
      Kill w = (Throws (LogicError ''Cannot kill a Worker that was not started''), w) \<and>
      step (Set_kill :: ('p, 't) event) (w, pc) = None) \<and>
   (\<not> options_owned_thread w \<or> thread w \<longrightarrow>
      Kill w = (Returns, w\<lparr>kill := True, signal_transact := True\<rparr>) \<and>
      run [Set_kill :: ('p, 't) event, Set_event] (w, pc) = Some ([], (snd (Kill w), pc))) \<and>
   (\<not> pw_thread v \<longrightarrow>
      ProcessWorker_Kill v
        = (Throws (LogicError ''Cannot Drain a Worker that was not started''), v)) \<and>
   (pw_thread v \<longrightarrow>
      ProcessWorker_Kill v = (Returns, v\<lparr>pw_kill := True, pw_signal_transact := True\<rparr>))"
proof -
  have refused: "Kill w = (Throws (LogicError ''Cannot kill a Worker that was not started''), w) \<and>
      step (Set_kill :: ('p, 't) event) (w, pc) = None"
    if "options_owned_thread w \<and> \<not> thread w"
    using that by (simp add: Kill_def)
  have accepted: "Kill w = (Returns, w\<lparr>kill := True, signal_transact := True\<rparr>) \<and>
      run [Set_kill :: ('p, 't) event, Set_event] (w, pc) = Some ([], (snd (Kill w), pc))"
    if "\<not> options_owned_thread w \<or> thread w"
    using that by (auto simp: Kill_def)
  have old: "ProcessWorker_Kill v
      = (if \<not> pw_thread v
         then (Throws (LogicError ''Cannot Drain a Worker that was not started''), v)
         else (Returns, v\<lparr>pw_kill := True, pw_signal_transact := True\<rparr>))"
    by (simp add: ProcessWorker_Kill_def)
  show ?thesis using refused accepted old by simp
qed

theorem Kill_cases_witness:
  "fst (Kill (Worker_new ''w'' True :: nat Worker))
     = Throws (LogicError ''Cannot kill a Worker that was not started'') \<and>
   kill (snd (Kill ((Worker_new ''w'' True :: nat Worker)\<lparr>thread := True\<rparr>)))"
proof -
  let ?w = "Worker_new ''w'' True :: nat Worker"
  let ?v = "\<lparr>pw_options_name = ''w'', pw_thread = False, pw_kill = False,
             pw_signal_transact = False, pw_signal_ended = False,
             pw_pending_thunks = [], pw_next_thunks = []\<rparr> :: nat ProcessWorker"
  have a: "options_owned_thread ?w \<and> \<not> thread ?w" by (simp add: Worker_new_def)
  have b: "\<not> options_owned_thread (?w\<lparr>thread := True\<rparr>) \<or> thread (?w\<lparr>thread := True\<rparr>)"
    by simp
  from a Kill_cases[of ?w "Idle" ?v, where 'p = nat]
  have "Kill ?w = (Throws (LogicError ''Cannot kill a Worker that was not started''), ?w)"
    by blast
  moreover from b Kill_cases[of "?w\<lparr>thread := True\<rparr>" "Idle" ?v, where 'p = nat]
  have "Kill (?w\<lparr>thread := True\<rparr>)
          = (Returns, ?w\<lparr>thread := True, kill := True, signal_transact := True\<rparr>)"
    by blast
  ultimately show ?thesis by simp
qed

text \<open>
  The claim as stated fails for a Worker without its own thread: never run, it
  accepts \<^verbatim>\<open>Kill\<close>.
\<close>

theorem Kill_before_run_counterexample:
  "\<not> thread (Worker_new ''w'' False :: nat Worker) \<and>
   \<not> has_run (Worker_new ''w'' False :: nat Worker) \<and>
   Kill (Worker_new ''w'' False :: nat Worker)
     = (Returns, (Worker_new ''w'' False)\<lparr>kill := True, signal_transact := True\<rparr>)"
  by (simp add: Kill_def Worker_new_def)

section \<open>WaitForShutdown\<close>

lemma WaitForShutdown_loop_deadline:
  "WaitForShutdown_loop nm (replicate n IREE_DEADLINE_EXCEEDED @ sts) =
     map_option (\<lambda>(r, effs). (r, concat (replicate n (slice_timed_out nm)) @ effs))
       (WaitForShutdown_loop nm sts)"
proof (induction n)
  case 0
  show ?case by (simp add: option.map_ident)
next
  case (Suc n)
  then show ?case
    by (simp add: iree_status_is_ok_def iree_status_is_deadline_exceeded_def
        slice_timed_out_def option.map_comp comp_def case_prod_unfold)
qed

lemma WaitForShutdown_loop_returns:
  "WaitForShutdown_loop nm sts = Some (Returns, effs) \<Longrightarrow> IREE_OK \<in> set sts"
proof (induction sts arbitrary: effs)
  case Nil
  then show ?case by simp
next
  case (Cons st sts)
  then show ?case
    by (cases st)
       (auto simp: iree_status_is_ok_def iree_status_is_deadline_exceeded_def
             SHORTFIN_THROW_IF_ERROR_def split: if_splits)
qed

text \<open>
  Claim C7. \<^verbatim>\<open>WaitForShutdown\<close> raises a logic error for a Worker without its own
  thread and for one that was not started. Otherwise it waits on the "ended" event
  in slices of 5000 ms: after \<open>n\<close> slices that timed out it has logged \<open>n\<close> warnings and
  is still waiting; it returns at the first slice that ends OK, and raises the status
  of the first slice that ends in any other way. It returns only if a slice ended OK.
\<close>

theorem WaitForShutdown_polls:
  "(\<not> options_owned_thread w \<longrightarrow>
      WaitForShutdown sts w
        = Some (Throws (LogicError ''Cannot shutdown worker when owned_thread=false''), [])) \<and>
   (options_owned_thread w \<and> \<not> thread w \<longrightarrow>
      WaitForShutdown sts w
        = Some (Throws (LogicError ''Cannot Shutdown a Worker that was not started''), [])) \<and>
   (options_owned_thread w \<and> thread w \<longrightarrow>
      WaitForShutdown (replicate n IREE_DEADLINE_EXCEEDED) w = None \<and>
      WaitForShutdown (replicate n IREE_DEADLINE_EXCEEDED @ IREE_OK # later) w
        = Some (Returns,
                concat (replicate n (slice_timed_out (options_name w))) @ [Wait_ended 5000]) \<and>
      WaitForShutdown (replicate n IREE_DEADLINE_EXCEEDED @ IREE_FAILURE c # later) w
        = Some (Throws (StatusError (IREE_FAILURE c)),
                concat (replicate n (slice_timed_out (options_name w))) @ [Wait_ended 5000]) \<and>
      (\<forall>effs. WaitForShutdown sts w = Some (Returns, effs) \<longrightarrow> IREE_OK \<in> set sts))"
proof -
  have none: "WaitForShutdown_loop nm (replicate n IREE_DEADLINE_EXCEEDED)
                = (None :: (outcome \<times> 'a effect list) option)" for nm
    using WaitForShutdown_loop_deadline[of nm n "[]"] by simp
  have ok: "WaitForShutdown_loop nm (replicate n IREE_DEADLINE_EXCEEDED @ IREE_OK # later)
      = Some (Returns, concat (replicate n (slice_timed_out nm)) @ [Wait_ended 5000 :: 'a effect])"
    for nm
    by (simp add: WaitForShutdown_loop_deadline iree_status_is_ok_def)
  have bad: "WaitForShutdown_loop nm (replicate n IREE_DEADLINE_EXCEEDED @ IREE_FAILURE c # later)
      = Some (Throws (StatusError (IREE_FAILURE c)),
              concat (replicate n (slice_timed_out nm)) @ [Wait_ended 5000 :: 'a effect])"
    for nm
    by (simp add: WaitForShutdown_loop_deadline iree_status_is_ok_def
        iree_status_is_deadline_exceeded_def SHORTFIN_THROW_IF_ERROR_def)
  show ?thesis
    using none ok bad WaitForShutdown_loop_returns
    by (auto simp: WaitForShutdown_def)
qed

theorem WaitForShutdown_polls_witness:
  "WaitForShutdown [IREE_OK] (Worker_new ''w'' False :: nat Worker)
     = Some (Throws (LogicError ''Cannot shutdown worker when owned_thread=false''), []) \<and>
   WaitForShutdown [IREE_OK] (Worker_new ''w'' True :: nat Worker)
     = Some (Throws (LogicError ''Cannot Shutdown a Worker that was not started''), []) \<and>
   WaitForShutdown [IREE_DEADLINE_EXCEEDED, IREE_DEADLINE_EXCEEDED, IREE_OK]
       ((Worker_new ''w'' True :: nat Worker)\<lparr>thread := True\<rparr>)
     = Some (Returns,
         [Wait_ended 5000, Log_warn ''Still waiting for worker {} to terminate'' [''w''],
          Wait_ended 5000, Log_warn ''Still waiting for worker {} to terminate'' [''w''],
          Wait_ended 5000])"
  using WaitForShutdown_polls[of "Worker_new ''w'' False :: nat Worker" "[IREE_OK]"]
        WaitForShutdown_polls[of "Worker_new ''w'' True :: nat Worker" "[IREE_OK]"]
        WaitForShutdown_polls[of "(Worker_new ''w'' True :: nat Worker)\<lparr>thread := True\<rparr>" "[]" 2 "[]"]
  by (simp add: Worker_new_def slice_timed_out_def numeral_2_eq_2)

section \<open>Start and RunOnCurrentThread\<close>

lemma RunLoop_cycle_runs:
  assumes "n \<le> length ds"
    and "\<And>k. k < n \<Longrightarrow> \<not> kill (drained (take k ds) w) \<and>
                 iree_status_is_ok (fst ((ds ! k) (drained (take k ds) w)))"
  shows "RunLoop_cycle ds w = RunLoop_cycle (drop n ds) (drained (take n ds) w)"
  using assms
proof (induction n arbitrary: ds w)
  case 0
  then show ?case by simp
next
  case (Suc n)
  then obtain d later where ds: "ds = d # later" by (cases ds) auto
  from Suc.prems(2)[of 0] ds
  have now: "\<not> kill w" "iree_status_is_ok (fst (d w))" by simp_all
  have step: "RunLoop_cycle ds w = RunLoop_cycle later (snd (d w))"
    using now ds by (subst RunLoop_cycle.simps) (simp add: case_prod_unfold)
  have "RunLoop_cycle later (snd (d w))
          = RunLoop_cycle (drop n later) (drained (take n later) (snd (d w)))"
  proof (rule Suc.IH)
    show "n \<le> length later" using Suc.prems(1) ds by simp
  next
    fix k assume "k < n"
    then show "\<not> kill (drained (take k later) (snd (d w))) \<and>
               iree_status_is_ok (fst ((later ! k) (drained (take k later) (snd (d w)))))"
      using Suc.prems(2)[of "Suc k"] ds by simp
  qed
  with step ds show ?case by simp
qed

lemma RunLoop_cycle_returns:
  "RunLoop_cycle ds w = Some (IREE_OK, w') \<Longrightarrow> kill w'"
proof (induction ds arbitrary: w)
  case Nil
  then show ?case
    by (subst (asm) RunLoop_cycle.simps) (simp split: if_splits)
next
  case (Cons d ds)
  show ?case
  proof (cases "kill w")
    case True
    then show ?thesis
      using Cons.prems by (subst (asm) RunLoop_cycle.simps) simp
  next
    case False
    then show ?thesis
      using Cons.prems Cons.IH[of "snd (d w)"]
      by (subst (asm) RunLoop_cycle.simps)
         (auto simp: case_prod_unfold iree_status_is_ok_def split: if_splits)
  qed
qed

lemma RunOnThread_killed:
  assumes "n \<le> length ds"
    and "\<And>k. k < n \<Longrightarrow> \<not> kill (drained (take k ds) (w\<lparr>transact_wait := True\<rparr>)) \<and>
           iree_status_is_ok
             (fst ((ds ! k) (drained (take k ds) (w\<lparr>transact_wait := True\<rparr>))))"
    and "kill (drained (take n ds) (w\<lparr>transact_wait := True\<rparr>))"
  shows "RunOnThread IREE_OK ds w
           = Some (Returns, (drained (take n ds) (w\<lparr>transact_wait := True\<rparr>))
                              \<lparr>signal_ended := True\<rparr>)"
proof -
  let ?w1 = "w\<lparr>transact_wait := True\<rparr>"
  have "RunLoop_cycle ds ?w1 = RunLoop_cycle (drop n ds) (drained (take n ds) ?w1)"
    using assms(1,2) by (rule RunLoop_cycle_runs)
  also have "\<dots> = Some (IREE_OK, drained (take n ds) ?w1)"
    using assms(3) by (subst RunLoop_cycle.simps) simp
  finally show ?thesis
    by (simp add: RunOnThread_def RunLoop_def ScheduleExternalTransactEvent_def
        iree_status_is_ok_def)
qed

lemma RunOnThread_running:
  assumes "\<And>k. k < length ds \<Longrightarrow>
             iree_status_is_ok
               (fst ((ds ! k) (drained (take k ds) (w\<lparr>transact_wait := True\<rparr>))))"
    and "\<And>k. k \<le> length ds \<Longrightarrow> \<not> kill (drained (take k ds) (w\<lparr>transact_wait := True\<rparr>))"
  shows "RunOnThread IREE_OK ds w = None"
proof -
  let ?w1 = "w\<lparr>transact_wait := True\<rparr>"
  have "RunLoop_cycle ds ?w1
          = RunLoop_cycle (drop (length ds) ds) (drained (take (length ds) ds) ?w1)"
    using assms by (intro RunLoop_cycle_runs) auto
  also have "\<dots> = None"
    using assms(2)[of "length ds"] by (subst RunLoop_cycle.simps) simp
  finally show ?thesis
    by (simp add: RunOnThread_def RunLoop_def ScheduleExternalTransactEvent_def
        iree_status_is_ok_def)
qed

lemma RunOnThread_returns:
  assumes "RunOnThread armed ds w = Some (Returns, w')"
  shows "kill w' \<and> signal_ended w'"
proof -
  from assms obtain st w1 where
    l: "RunLoop armed ds w = Some (st, w1)" and ok: "iree_status_is_ok st"
    and w': "w' = w1\<lparr>signal_ended := True\<rparr>"
    by (auto simp: RunOnThread_def split: if_splits)
  from l ok have "RunLoop_cycle ds (snd (ScheduleExternalTransactEvent armed w)) = Some (IREE_OK, w1)"
    by (auto simp: RunLoop_def iree_status_is_ok_def split: prod.splits if_splits)
  then have "kill w1" by (rule RunLoop_cycle_returns)
  with w' show ?thesis by simp
qed

text \<open>
  Claim C8. \<^verbatim>\<open>Start\<close> raises a logic error for a Worker without its own thread and
  for one already started, and leaves the Worker alone; otherwise, the thread being
  created, it asks for it suspended, resumes it and holds its handle.
  \<^verbatim>\<open>RunOnCurrentThread\<close> raises a logic error for a Worker with its own thread and for
  one that has run already. Otherwise it marks the Worker as run and runs the loop
  on the caller's thread; with the wait registered and every drain OK, it returns
  at the first check that finds \<open>kill\<close> set: after \<open>n\<close> drains when the flag is set
  after the \<open>n\<close>-th and not before, and not at all while the flag stays unset. When it
  returns, \<open>kill\<close> is set and the "ended" event has been set.
\<close>

theorem Start_RunOnCurrentThread_cases:
  "(\<not> options_owned_thread w \<longrightarrow>
      Start created w
        = (Throws (LogicError ''Cannot start worker when owned_thread=false''), [], w)) \<and>
   (options_owned_thread w \<and> thread w \<longrightarrow>
      Start created w = (Throws (LogicError ''Cannot start Worker multiple times''), [], w)) \<and>
   (options_owned_thread w \<and> \<not> thread w \<longrightarrow>
      Start IREE_OK w
        = (Returns, [Thread_create (options_name w) True, Thread_resume], w\<lparr>thread := True\<rparr>)) \<and>
   (options_owned_thread w \<longrightarrow>
      RunOnCurrentThread armed ds w
        = Some (Throws (LogicError
            ''Cannot RunOnCurrentThread if worker was configured for owned_thread''), w)) \<and>
   (\<not> options_owned_thread w \<and> has_run w \<longrightarrow>
      RunOnCurrentThread armed ds w
        = Some (Throws (LogicError ''Cannot RunOnCurrentThread if already finished''), w)) \<and>
   (\<not> options_owned_thread w \<and> \<not> has_run w \<longrightarrow>
      (\<forall>w'. RunOnCurrentThread armed ds w = Some (Returns, w') \<longrightarrow> kill w' \<and> signal_ended w') \<and>
      (n \<le> length ds \<and>
       (\<forall>k<n. \<not> kill (drained (take k ds) (w\<lparr>has_run := True, transact_wait := True\<rparr>)) \<and>
               iree_status_is_ok
                 (fst ((ds ! k) (drained (take k ds) (w\<lparr>has_run := True, transact_wait := True\<rparr>))))) \<and>
       kill (drained (take n ds) (w\<lparr>has_run := True, transact_wait := True\<rparr>)) \<longrightarrow>
         RunOnCurrentThread IREE_OK ds w
           = Some (Returns, (drained (take n ds) (w\<lparr>has_run := True, transact_wait := True\<rparr>))
                              \<lparr>signal_ended := True\<rparr>)) \<and>
      ((\<forall>k<length ds.
          iree_status_is_ok
            (fst ((ds ! k) (drained (take k ds) (w\<lparr>has_run := True, transact_wait := True\<rparr>))))) \<and>
       (\<forall>k\<le>length ds. \<not> kill (drained (take k ds) (w\<lparr>has_run := True, transact_wait := True\<rparr>))) \<longrightarrow>
         RunOnCurrentThread IREE_OK ds w = None))"
proof -
  let ?w1 = "w\<lparr>has_run := True\<rparr>"
  have start: "\<not> options_owned_thread w \<longrightarrow>
      Start created w
        = (Throws (LogicError ''Cannot start worker when owned_thread=false''), [], w)"
    "options_owned_thread w \<and> thread w \<longrightarrow>
      Start created w = (Throws (LogicError ''Cannot start Worker multiple times''), [], w)"
    "options_owned_thread w \<and> \<not> thread w \<longrightarrow>
      Start IREE_OK w
        = (Returns, [Thread_create (options_name w) True, Thread_resume], w\<lparr>thread := True\<rparr>)"
    by (simp_all add: Start_def SHORTFIN_THROW_IF_ERROR_def iree_status_is_ok_def)
  have refuse: "options_owned_thread w \<longrightarrow>
      RunOnCurrentThread armed ds w
        = Some (Throws (LogicError
            ''Cannot RunOnCurrentThread if worker was configured for owned_thread''), w)"
    "\<not> options_owned_thread w \<and> has_run w \<longrightarrow>
      RunOnCurrentThread armed ds w
        = Some (Throws (LogicError ''Cannot RunOnCurrentThread if already finished''), w)"
    by (simp_all add: RunOnCurrentThread_def)
  have runs: "RunOnCurrentThread a ds w = RunOnThread a ds ?w1"
    if "\<not> options_owned_thread w \<and> \<not> has_run w" for a
    using that by (simp add: RunOnCurrentThread_def)
  have ret: "\<forall>w'. RunOnThread armed ds ?w1 = Some (Returns, w') \<longrightarrow> kill w' \<and> signal_ended w'"
    using RunOnThread_returns by blast
  have killed: "n \<le> length ds \<and>
       (\<forall>k<n. \<not> kill (drained (take k ds) (?w1\<lparr>transact_wait := True\<rparr>)) \<and>
               iree_status_is_ok (fst ((ds ! k) (drained (take k ds) (?w1\<lparr>transact_wait := True\<rparr>))))) \<and>
       kill (drained (take n ds) (?w1\<lparr>transact_wait := True\<rparr>)) \<longrightarrow>
         RunOnThread IREE_OK ds ?w1
           = Some (Returns, (drained (take n ds) (?w1\<lparr>transact_wait := True\<rparr>))\<lparr>signal_ended := True\<rparr>)"
    using RunOnThread_killed[of n ds ?w1] by blast
  have running: "(\<forall>k<length ds.
          iree_status_is_ok (fst ((ds ! k) (drained (take k ds) (?w1\<lparr>transact_wait := True\<rparr>))))) \<and>
       (\<forall>k\<le>length ds. \<not> kill (drained (take k ds) (?w1\<lparr>transact_wait := True\<rparr>))) \<longrightarrow>
         RunOnThread IREE_OK ds ?w1 = None"
    using RunOnThread_running[of ds ?w1] by blast
  show ?thesis
    using start refuse runs ret killed running by simp
qed

lemma less_two_cases: "k < (2::nat) \<Longrightarrow> k = 0 \<or> k = 1"
  by auto

lemma le_two_cases: "k \<le> (2::nat) \<Longrightarrow> k = 0 \<or> k = 1 \<or> k = 2"
  by auto

theorem Start_RunOnCurrentThread_cases_witness:
  "Start IREE_OK (Worker_new ''w'' True :: nat Worker)
     = (Returns, [Thread_create ''w'' True, Thread_resume],
        (Worker_new ''w'' True)\<lparr>thread := True\<rparr>) \<and>
   fst (Start IREE_OK (Worker_new ''w'' False :: nat Worker))
     = Throws (LogicError ''Cannot start worker when owned_thread=false'') \<and>
   RunOnCurrentThread IREE_OK [drain_idle, drain_killed, drain_idle] (Worker_new ''w'' False)
     = Some (Returns, (Worker_new ''w'' False)
               \<lparr>kill := True, has_run := True, signal_transact := True,
                signal_ended := True, transact_wait := True\<rparr>) \<and>
   RunOnCurrentThread IREE_OK [drain_idle, drain_idle] (Worker_new ''w'' False) = None"
proof -
  let ?o = "Worker_new ''w'' True :: nat Worker"
  let ?h = "Worker_new ''w'' False :: nat Worker"
  let ?ds = "[drain_idle, drain_killed, drain_idle]"
  let ?qs = "[drain_idle, drain_idle]"
  let ?w1 = "?h\<lparr>has_run := True, transact_wait := True\<rparr>"
  have o: "options_owned_thread ?o \<and> \<not> thread ?o"
    and h: "\<not> options_owned_thread ?h \<and> \<not> has_run ?h"
    and nm: "options_name ?o = ''w''"
    by (simp_all add: Worker_new_def)
  have "Start IREE_OK ?o
      = (Returns, [Thread_create (options_name ?o) True, Thread_resume], ?o\<lparr>thread := True\<rparr>)"
    using o Start_RunOnCurrentThread_cases[of ?o IREE_OK IREE_OK "[]" 0] by blast
  then have s1: "Start IREE_OK ?o
      = (Returns, [Thread_create ''w'' True, Thread_resume], ?o\<lparr>thread := True\<rparr>)"
    by (simp only: nm)
  have "Start IREE_OK ?h
      = (Throws (LogicError ''Cannot start worker when owned_thread=false''), [], ?h)"
    using h Start_RunOnCurrentThread_cases[of ?h IREE_OK IREE_OK "[]" 0] by blast
  then have s2: "fst (Start IREE_OK ?h)
      = Throws (LogicError ''Cannot start worker when owned_thread=false'')"
    by (simp only: fst_conv)
  have nk: "\<not> kill ?w1" by (simp add: Worker_new_def)
  have before: "\<forall>k<2. \<not> kill (drained (take k ?ds) ?w1) \<and>
                  iree_status_is_ok (fst ((?ds ! k) (drained (take k ?ds) ?w1)))"
  proof (intro allI impI)
    fix k :: nat assume "k < 2"
    then have "k = 0 \<or> k = 1" by (rule less_two_cases)
    then show "\<not> kill (drained (take k ?ds) ?w1) \<and>
               iree_status_is_ok (fst ((?ds ! k) (drained (take k ?ds) ?w1)))"
    proof
      assume "k = 0"
      then show ?thesis using nk
        by (simp add: drain_idle_def iree_status_is_ok_def)
    next
      assume "k = 1"
      then show ?thesis using nk
        by (simp add: drain_idle_def drain_killed_def iree_status_is_ok_def)
    qed
  qed
  have t2: "take 2 ?ds = [drain_idle, drain_killed]" by (simp add: numeral_2_eq_2)
  have fin: "drained (take 2 ?ds) ?w1 = ?w1\<lparr>kill := True, signal_transact := True\<rparr>"
    unfolding t2 by (simp add: drain_idle_def drain_killed_def Kill_def Worker_new_def)
  then have after: "kill (drained (take 2 ?ds) ?w1)" by simp
  have len: "2 \<le> length ?ds" by simp
  have "RunOnCurrentThread IREE_OK ?ds ?h
      = Some (Returns, (drained (take 2 ?ds) ?w1)\<lparr>signal_ended := True\<rparr>)"
    using h len before after Start_RunOnCurrentThread_cases[of ?h IREE_OK IREE_OK ?ds 2]
    by blast
  then have r1: "RunOnCurrentThread IREE_OK ?ds ?h
      = Some (Returns, ?h\<lparr>kill := True, has_run := True, signal_transact := True,
                         signal_ended := True, transact_wait := True\<rparr>)"
    unfolding fin by (simp add: Worker_new_def)
  have idle: "drained (take k ?qs) ?w1 = ?w1" if "k \<le> 2" for k
    using le_two_cases[OF that] by (auto simp: drain_idle_def drain_killed_def numeral_2_eq_2)
  have q1: "\<forall>k<length ?qs. iree_status_is_ok (fst ((?qs ! k) (drained (take k ?qs) ?w1)))"
  proof (intro allI impI)
    fix k :: nat assume "k < length ?qs"
    then have "k < 2" by simp
    then have "k = 0 \<or> k = 1" by (rule less_two_cases)
    then show "iree_status_is_ok (fst ((?qs ! k) (drained (take k ?qs) ?w1)))"
      by (auto simp: drain_idle_def iree_status_is_ok_def)
  qed
  have q2: "\<forall>k\<le>length ?qs. \<not> kill (drained (take k ?qs) ?w1)"
  proof (intro allI impI)
    fix k :: nat assume "k \<le> length ?qs"
    then have "k \<le> 2" by simp
    from idle[OF this] nk show "\<not> kill (drained (take k ?qs) ?w1)" by simp
  qed
  have r2: "RunOnCurrentThread IREE_OK ?qs ?h = None"
    using h q1 q2 Start_RunOnCurrentThread_cases[of ?h IREE_OK IREE_OK ?qs 0]
    by blast
  from s1 s2 r1 r2 show ?thesis by blast
qed

section \<open>The two TransactLoop functions\<close>

lemma thunk_calls_map: "thunk_calls (map Thunk_call ts) = ts"
  by (induction ts) simp_all

lemma TransactLoop_effects:
  "TransactLoop IREE_OK rearm w
     = (if kill w then (IREE_OK, [], w\<lparr>signal_transact := False\<rparr>)
        else (rearm, map Thunk_call (pending_thunks w),
              snd (ScheduleExternalTransactEvent rearm
                    (w\<lparr>signal_transact := False, next_thunks := [],
                       pending_thunks := next_thunks w\<rparr>))))"
  by (simp add: TransactLoop_def TransactLoop_locked_def ScheduleExternalTransactEvent_def
      iree_status_is_ok_def)

lemma ProcessWorker_TransactLoop_effects:
  "ProcessWorker_TransactLoop IREE_OK v
     = (if pw_kill v then (IREE_OK, [Log_info ''Transact loop!'' []], v\<lparr>pw_signal_transact := False\<rparr>)
        else (IREE_OK, Log_info ''Transact loop!'' [] # map Thunk_call (pw_pending_thunks v),
              v\<lparr>pw_signal_transact := False, pw_next_thunks := [],
                pw_pending_thunks := pw_next_thunks v\<rparr>))"
  by (simp add: ProcessWorker_TransactLoop_def iree_status_is_ok_def Let_def)

text \<open>
  Claim C10. Let a Worker of each kind hold the same pending thunks and the same
  kill flag, and let \<^verbatim>\<open>TransactLoop\<close> be called on both with an OK status. Both reset the
  transact event. With the flag set both return OK, invoke no thunk and leave
  \<open>pending_thunks\<close> as it was. With the flag unset both invoke exactly the pending
  thunks, in the order of the list, and end with \<open>next_thunks\<close> empty and
  \<open>pending_thunks\<close> holding what \<open>next_thunks\<close> held before.
\<close>

theorem TransactLoop_agree:
  assumes "pw_pending_thunks v = pending_thunks w" and "pw_kill v = kill w"
    and "TransactLoop IREE_OK rearm w = (st, effs, w')"
    and "ProcessWorker_TransactLoop IREE_OK v = (st_old, effs_old, v')"
  shows "thunk_calls effs = thunk_calls effs_old \<and>
         \<not> signal_transact w' \<and> \<not> pw_signal_transact v' \<and>
         (kill w \<longrightarrow> st = IREE_OK \<and> st_old = IREE_OK \<and> thunk_calls effs = [] \<and>
            pending_thunks w' = pending_thunks w \<and> pw_pending_thunks v' = pending_thunks w) \<and>
         (\<not> kill w \<longrightarrow> thunk_calls effs = pending_thunks w \<and> st_old = IREE_OK \<and> st = rearm \<and>
            next_thunks w' = [] \<and> pw_next_thunks v' = [] \<and>
            pending_thunks w' = next_thunks w \<and> pw_pending_thunks v' = pw_next_thunks v)"
proof (cases "kill w")
  case True
  then show ?thesis
    using assms by (auto simp: TransactLoop_effects ProcessWorker_TransactLoop_effects)
next
  case False
  then show ?thesis
    using assms
    by (auto simp: TransactLoop_effects ProcessWorker_TransactLoop_effects
        ScheduleExternalTransactEvent_def thunk_calls_map split: if_splits)
qed

theorem TransactLoop_agree_witness:
  "thunk_calls (fst (snd (TransactLoop IREE_OK IREE_OK transact_demo))) = [7, 8, 9] \<and>
   thunk_calls (fst (snd (ProcessWorker_TransactLoop IREE_OK transact_demo_old))) = [7, 8, 9]"
proof -
  obtain st effs w' where a: "TransactLoop IREE_OK IREE_OK transact_demo = (st, effs, w')"
    by (cases "TransactLoop IREE_OK IREE_OK transact_demo") auto
  obtain st_old effs_old v' where
    b: "ProcessWorker_TransactLoop IREE_OK transact_demo_old = (st_old, effs_old, v')"
    by (cases "ProcessWorker_TransactLoop IREE_OK transact_demo_old") auto
  have p: "pw_pending_thunks transact_demo_old = pending_thunks transact_demo"
    and k: "pw_kill transact_demo_old = kill transact_demo"
    and n: "\<not> kill transact_demo" and l: "pending_thunks transact_demo = [7, 8, 9]"
    by (simp_all add: transact_demo_def transact_demo_old_def Worker_new_def)
  from TransactLoop_agree[OF p k a b] n l
  have "thunk_calls effs = [7, 8, 9]" "thunk_calls effs_old = [7, 8, 9]" by auto
  with a b show ?thesis by simp
qed

section \<open>The affinity algebra and the device selector\<close>


lemma device_DeviceAffinity_of: "device (DeviceAffinity_of d) = Some d"
  by (simp add: DeviceAffinity_of_def)














section \<open>Invocations before and after scheduling\<close>

lemma AddArg_ref_signal:
  "coarse_signal (snd (AddArg_ref r iv)) = coarse_signal iv \<and>
   scheduled (snd (AddArg_ref r iv)) = scheduled iv"
  by (simp add: AddArg_ref_def coarse_signal_def split: option.splits)

lemma DeviceSelect_signal:
  "coarse_signal (snd (DeviceSelect dl a iv)) = coarse_signal iv \<and>
   scheduled (snd (DeviceSelect dl a iv)) = scheduled iv"
  by (simp add: DeviceSelect_def coarse_signal_def split: option.splits sum.splits)

lemma wait_insert_signal:
  "coarse_signal (wait_insert f iv) = coarse_signal iv \<and>
   scheduled (wait_insert f iv) = scheduled iv"
  by (simp add: wait_insert_def coarse_signal_def)

lemma AddArg_marshalable_signal:
  "coarse_signal (snd (AddArg_marshalable dl m b iv)) = coarse_signal iv \<and>
   scheduled (snd (AddArg_marshalable dl m b iv)) = scheduled iv"
proof (cases "b = BARRIER_NONE")
  case True
  then show ?thesis by (simp add: AddArg_marshalable_def AddArg_ref_signal)
next
  case False
  obtain r iv1 where d: "DeviceSelect dl (marshal_device m) iv = (r, iv1)"
    by (cases "DeviceSelect dl (marshal_device m) iv") auto
  have 1: "coarse_signal iv1 = coarse_signal iv" "scheduled iv1 = scheduled iv"
    using DeviceSelect_signal[of dl "marshal_device m" iv] d by simp_all
  show ?thesis
  proof (cases r)
    case Returns
    then show ?thesis
      using False d 1 AddArg_ref_signal[of "marshal_ref m" "wait_insert (marshal_waits m b) iv1"]
      by (simp add: AddArg_marshalable_def wait_insert_signal)
  qed (use False d 1 in \<open>simp_all add: AddArg_marshalable_def\<close>)
qed

lemma build_call_signal:
  "coarse_signal (snd (apply_call dl c iv)) = coarse_signal iv \<and>
   scheduled (snd (apply_call dl c iv)) = scheduled iv"
  by (cases c)
     (simp_all add: AddArg_ref_signal AddArg_marshalable_signal DeviceSelect_signal
        wait_insert_signal)

lemma build_calls_signal:
  "coarse_signal (build_calls dl cs iv) = coarse_signal iv \<and>
   scheduled (build_calls dl cs iv) = scheduled iv"
  by (induction cs arbitrary: iv) (simp_all add: build_call_signal)

lemma built_not_scheduled: "\<not> scheduled (build_calls dl cs (ProgramInvocation_New m))"
  using build_calls_signal[of dl cs "ProgramInvocation_New m"]
  by (simp add: ProgramInvocation_New_def)

text \<open>
  Claim C9. An invocation made by \<^verbatim>\<open>New\<close> and built up by any calls of \<^verbatim>\<open>AddArg\<close>,
  \<^verbatim>\<open>DeviceSelect\<close> and \<^verbatim>\<open>wait_insert\<close> is not scheduled, and its \<^verbatim>\<open>coarse_signal()\<close> is the
  null semaphore with timepoint 0.
\<close>

theorem coarse_signal_before_Invoke:
  "coarse_signal (build_calls dl cs (ProgramInvocation_New m)) = (None, 0) \<and>
   \<not> scheduled (build_calls dl cs (ProgramInvocation_New m))"
  using build_calls_signal[of dl cs "ProgramInvocation_New m"]
  by (simp add: coarse_signal_def ProgramInvocation_New_def)

theorem coarse_signal_before_Invoke_witness:
  "coarse_signal demo_invocation = (None, 0) \<and> \<not> scheduled demo_invocation \<and>
   coarse_signal (snd (Invoke (5, 3) demo_invocation)) = (Some 5, 4)"
proof -
  have "coarse_signal demo_invocation = (None, 0) \<and> \<not> scheduled demo_invocation"
    unfolding demo_invocation_def by (rule coarse_signal_before_Invoke)
  moreover have "device (device_selection demo_invocation) = Some (gpu 0 0)"
    by (simp add: demo_invocation_def demo_array_def ProgramInvocation_New_def
        AddArg_marshalable_def DeviceSelect_def AddArg_ref_def CheckNotScheduled_def
        wait_insert_def affinity_or_def deviceless_keeps_other_def DeviceAffinity_empty_def
        device_DeviceAffinity_of)
  moreover have "invocation_model demo_invocation = COARSE_FENCES"
    by (simp add: demo_invocation_def demo_array_def ProgramInvocation_New_def
        AddArg_marshalable_def DeviceSelect_def AddArg_ref_def CheckNotScheduled_def
        wait_insert_def affinity_or_def deviceless_keeps_other_def DeviceAffinity_empty_def
        device_DeviceAffinity_of)
  ultimately show ?thesis
    by (simp add: Invoke_def CheckNotScheduled_def coarse_signal_def Let_def)
qed

lemma Invoke_schedules:
  "\<not> scheduled iv \<Longrightarrow> \<exists>f. fst (Invoke timeline iv) = Inr f \<and> scheduled (snd (Invoke timeline iv))"
  by (simp add: Invoke_def CheckNotScheduled_def Let_def split: ProgramInvocationModel.splits)

lemma scheduled_refuses:
  assumes "scheduled iv"
  shows "AddArg_ref r iv = (Throws (LogicError ''mutation of a SCHEDULED Invocation''), iv)"
    and "DeviceSelect dl a iv = (Throws (LogicError ''mutation of a SCHEDULED Invocation''), iv)"
    and "AddArg_marshalable dl m b iv
           = (Throws (LogicError ''mutation of a SCHEDULED Invocation''), iv)"
  using assms
  by (simp_all add: AddArg_ref_def DeviceSelect_def AddArg_marshalable_def CheckNotScheduled_def)

text \<open>
  Claim C3. \<^verbatim>\<open>Invoke\<close> on an invocation that is not scheduled returns a future and
  leaves the invocation scheduled. On a scheduled invocation, and so on every
  invocation \<^verbatim>\<open>Invoke\<close> has returned for, \<^verbatim>\<open>AddArg\<close> with a reference, \<^verbatim>\<open>AddArg\<close> with a
  marshalable under any barrier, and \<^verbatim>\<open>DeviceSelect\<close> raise a logic error and leave the
  invocation as it was, its argument list and device selection included.
\<close>

theorem scheduled_is_frozen:
  "(\<not> scheduled iv0 \<longrightarrow>
      (\<exists>f. fst (Invoke timeline iv0) = Inr f) \<and> scheduled (snd (Invoke timeline iv0))) \<and>
   (scheduled iv \<longrightarrow>
      (\<exists>msg. AddArg_ref r iv = (Throws (LogicError msg), iv)) \<and>
      (\<exists>msg. AddArg_marshalable dl m b iv = (Throws (LogicError msg), iv)) \<and>
      (\<exists>msg. DeviceSelect dl a iv = (Throws (LogicError msg), iv)))"
  using Invoke_schedules[of iv0 timeline] scheduled_refuses
  by auto

theorem scheduled_is_frozen_witness:
  "fst (AddArg_ref (Object_ref 9) (snd (Invoke (5, 3) demo_invocation)))
     = Throws (LogicError ''mutation of a SCHEDULED Invocation'') \<and>
   arg_list (snd (AddArg_ref (Object_ref 9) (snd (Invoke (5, 3) demo_invocation))))
     = arg_list (snd (Invoke (5, 3) demo_invocation)) \<and>
   device_selection (snd (DeviceSelect deviceless_keeps_other (DeviceAffinity_of (gpu 1 0))
                            (snd (Invoke (5, 3) demo_invocation))))
     = device_selection (snd (Invoke (5, 3) demo_invocation))"
proof -
  let ?iv = "snd (Invoke (5, 3) demo_invocation)"
  have n: "\<not> scheduled demo_invocation"
    unfolding demo_invocation_def by (rule built_not_scheduled)
  have s: "scheduled ?iv"
    using n scheduled_is_frozen[of demo_invocation "(5, 3)"] by blast
  obtain m1 m2 where
    a: "AddArg_ref (Object_ref 9) ?iv = (Throws (LogicError m1), ?iv)"
    and d: "DeviceSelect deviceless_keeps_other (DeviceAffinity_of (gpu 1 0)) ?iv
              = (Throws (LogicError m2), ?iv)"
    using s scheduled_is_frozen[of demo_invocation "(5, 3)" ?iv "Object_ref 9"
        deviceless_keeps_other demo_array BARRIER_READ "DeviceAffinity_of (gpu 1 0)"]
    by blast
  have "m1 = ''mutation of a SCHEDULED Invocation''"
    using a s by (simp add: AddArg_ref_def CheckNotScheduled_def)
  with a d show ?thesis by simp
qed

section \<open>A transact cycle, step by step and as one call\<close>

text \<open>
  The steps of one cycle of the interleaving model, taken without another thread in
  between, invoke the thunks and leave the Worker as one call of \<^verbatim>\<open>TransactLoop\<close> does
  (the loop having consumed the registered wait when it calls the function).
\<close>

lemma run_append:
  "run (xs @ ys) s =
     (case run xs s of
        None \<Rightarrow> None
      | Some (o1, s1) \<Rightarrow>
          (case run ys s1 of None \<Rightarrow> None | Some (o2, s2) \<Rightarrow> Some (o1 @ o2, s2)))"
  by (induction xs arbitrary: s) (auto split: option.splits)

lemma run_thunks:
  fixes w :: "'t Worker"
  shows "i \<le> length (next_thunks w) \<Longrightarrow> n = length (next_thunks w) - i \<Longrightarrow>
     run (replicate n (Transact_thunk :: ('p, 't) event)) (w, In_transact i)
       = Some (drop i (next_thunks w), (w, In_transact (length (next_thunks w))))"
proof (induction n arbitrary: i)
  case 0
  then show ?case by simp
next
  case (Suc n)
  then have i: "i < length (next_thunks w)" by simp
  then have "Suc i \<le> length (next_thunks w)" "n = length (next_thunks w) - Suc i"
    using Suc.prems by simp_all
  then have "run (replicate n (Transact_thunk :: ('p, 't) event)) (w, In_transact (Suc i))
          = Some (drop (Suc i) (next_thunks w), (w, In_transact (length (next_thunks w))))"
    by (rule Suc.IH)
  then show ?case using i by (simp add: Cons_nth_drop_Suc)
qed

lemma run_all_thunks:
  fixes w :: "'t Worker"
  shows "run (replicate (length (next_thunks w)) (Transact_thunk :: ('p, 't) event))
           (w, In_transact 0)
         = Some (next_thunks w, (w, In_transact (length (next_thunks w))))"
  using run_thunks[of 0 w "length (next_thunks w)"] by simp

lemma transact_cycle:
  fixes w :: "'t Worker"
  assumes "transact_wait w" "signal_transact w" "\<not> kill w"
  shows "run (Transact_begin IREE_OK # replicate (length (pending_thunks w)) (Transact_thunk :: ('p, 't) event)
                @ [Transact_end rearm]) (w, Idle)
           = (case TransactLoop IREE_OK rearm (w\<lparr>transact_wait := False\<rparr>) of
                (st, effs, w') \<Rightarrow> Some (thunk_calls effs, (w', Idle)))"
proof -
  let ?w2 = "w\<lparr>transact_wait := False, signal_transact := False,
               next_thunks := pending_thunks w, pending_thunks := next_thunks w\<rparr>"
  let ?w3 = "snd (ScheduleExternalTransactEvent rearm (?w2\<lparr>next_thunks := []\<rparr>))"
  have b: "step (Transact_begin IREE_OK :: ('p, 't) event) (w, Idle) = Some ([], (?w2, In_transact 0))"
    using assms by (simp add: TransactLoop_locked_def iree_status_is_ok_def)
  have t: "run (replicate (length (pending_thunks w)) (Transact_thunk :: ('p, 't) event)) (?w2, In_transact 0)
             = Some (pending_thunks w, (?w2, In_transact (length (pending_thunks w))))"
  proof -
    have n: "next_thunks ?w2 = pending_thunks w" by simp
    show ?thesis using run_all_thunks[of ?w2] unfolding n .
  qed
  have e: "run [Transact_end rearm :: ('p, 't) event] (?w2, In_transact (length (pending_thunks w)))
             = Some ([], (?w3, Idle))"
    by (simp add: case_prod_unfold)
  have "run (replicate (length (pending_thunks w)) (Transact_thunk :: ('p, 't) event) @ [Transact_end rearm])
          (?w2, In_transact 0) = Some (pending_thunks w, (?w3, Idle))"
    unfolding run_append t using e by simp
  then have l: "run (Transact_begin IREE_OK # replicate (length (pending_thunks w)) (Transact_thunk :: ('p, 't) event)
                @ [Transact_end rearm]) (w, Idle) = Some (pending_thunks w, (?w3, Idle))"
    using b by simp
  have r: "TransactLoop IREE_OK rearm (w\<lparr>transact_wait := False\<rparr>)
             = (rearm, map Thunk_call (pending_thunks w), ?w3)"
    using assms(3)
    by (simp add: TransactLoop_def TransactLoop_locked_def iree_status_is_ok_def
        ScheduleExternalTransactEvent_def)
  show ?thesis unfolding l r by (simp add: thunk_calls_map)
qed

end
